theory Spec2Isabelle
  imports Main "HOL-Library.Word"
begin

text \<open>
  A model of the chat widget's script: the Escaper (\<open>escapeHtml\<close>), the Inline
  Formatter (\<open>applyInlineFormatting\<close>), the Block Formatter (\<open>formatMessage\<close>), the
  network call (\<open>callOpenAI\<close>) and the handler of the form's \<open>submit\<close> event, with
  the properties they have. The script modelled is the one that formats messages, calls
  the Worker proxy, asks for the name with \<open>prompt\<close> at most once and shows
  \<open>Thinking...\<close> while it waits. The older \<open>script.js\<close> has the same Escaper, the
  same two filters on \<open>chatHistory\<close> and the same \<open>callOpenAI\<close> but for the prefix of
  its error text (\<open>OpenAI API error: \<close>).
\<close>

section \<open>Strings\<close>

text \<open>
  A JavaScript string is a sequence of UTF-16 code units. Every operation of the chat
  widget that is modelled here (regular expressions without the \<open>u\<close> flag, \<open>trim\<close>,
  \<open>split\<close>, \<open>slice\<close>, \<open>===\<close>) works on code units, so a string is a list of
  16-bit words. ASCII literals are written through \<open>u16\<close>.
\<close>

type_synonym jschar = "16 word"
type_synonym jsstring = "jschar list"

definition u16 :: "string \<Rightarrow> jsstring" where
  "u16 s = map of_char s"

abbreviation chLF :: jschar where "chLF \<equiv> 0x0A"
abbreviation chCR :: jschar where "chCR \<equiv> 0x0D"
abbreviation chSpace :: jschar where "chSpace \<equiv> 0x20"
abbreviation chQuot :: jschar where "chQuot \<equiv> 0x22"
abbreviation chHash :: jschar where "chHash \<equiv> 0x23"
abbreviation chAmp :: jschar where "chAmp \<equiv> 0x26"
abbreviation chApos :: jschar where "chApos \<equiv> 0x27"
abbreviation chStar :: jschar where "chStar \<equiv> 0x2A"
abbreviation chPlus :: jschar where "chPlus \<equiv> 0x2B"
abbreviation chMinus :: jschar where "chMinus \<equiv> 0x2D"
abbreviation chLt :: jschar where "chLt \<equiv> 0x3C"
abbreviation chGt :: jschar where "chGt \<equiv> 0x3E"
abbreviation chUnderscore :: jschar where "chUnderscore \<equiv> 0x5F"
abbreviation chNbsp :: jschar where "chNbsp \<equiv> 0xA0"

text \<open>
  ECMAScript's LineTerminator and WhiteSpace productions. The regular-expression class
  \<open>\s\<close> and \<open>String.prototype.trim\<close> both use their union; the class \<open>.\<close> (without the
  \<open>s\<close> flag) is every code unit that is not a LineTerminator.
\<close>

definition isLineTerminator :: "jschar \<Rightarrow> bool" where
  "isLineTerminator c = (c = 0x0A \<or> c = 0x0D \<or> c = 0x2028 \<or> c = 0x2029)"

definition isWhiteSpace :: "jschar \<Rightarrow> bool" where
  "isWhiteSpace c =
     (c = 0x09 \<or> c = 0x0B \<or> c = 0x0C \<or> c = 0x20 \<or> c = 0xA0 \<or> c = 0x1680 \<or>
      (0x2000 \<le> c \<and> c \<le> 0x200A) \<or> c = 0x202F \<or> c = 0x205F \<or> c = 0x3000 \<or>
      c = 0xFEFF)"

definition isSpace :: "jschar \<Rightarrow> bool" where
  "isSpace c = (isWhiteSpace c \<or> isLineTerminator c)"

definition isDot :: "jschar \<Rightarrow> bool" where
  "isDot c = (\<not> isLineTerminator c)"

definition trim :: "jsstring \<Rightarrow> jsstring" where
  "trim s = rev (dropWhile isSpace (rev (dropWhile isSpace s)))"

text \<open>Number-to-string conversion of a non-negative integer, as a template literal does it.\<close>

fun decimal :: "nat \<Rightarrow> jsstring" where
  "decimal n =
     (if n < 10 then [of_nat (48 + n)]
      else decimal (n div 10) @ [of_nat (48 + n mod 10)])"

declare decimal.simps [simp del]

section \<open>Escaper\<close>

text \<open>
  \<^verbatim>\<open>function escapeHtml(text) { const p = document.createElement("p");
    p.textContent = text; return p.innerHTML; }\<close>

  The function body is two DOM operations. Setting \<open>textContent\<close> gives the element a
  single Text child whose data is the string, code unit for code unit. Reading
  \<open>innerHTML\<close> serialises that Text child with the HTML Standard's "escaping a string"
  algorithm outside attribute mode, which is four successive replacements: \<open>&\<close> by
  \<open>&amp;\<close>, U+00A0 by \<open>&nbsp;\<close>, \<open><\<close> by \<open>&lt;\<close> and \<open>>\<close> by \<open>&gt;\<close>. Quotes are
  replaced in attribute mode only.
\<close>

definition replaceChar :: "jschar \<Rightarrow> jsstring \<Rightarrow> jsstring \<Rightarrow> jsstring" where
  "replaceChar c r s = concat (map (\<lambda>x. if x = c then r else [x]) s)"

definition escapeHtml :: "jsstring \<Rightarrow> jsstring" where
  "escapeHtml text =
     replaceChar chGt (u16 ''&gt;'')
       (replaceChar chLt (u16 ''&lt;'')
         (replaceChar chNbsp (u16 ''&nbsp;'')
           (replaceChar chAmp (u16 ''&amp;'') text)))"

text \<open>What the four replacements do to one code unit.\<close>

definition escapeChar :: "jschar \<Rightarrow> jsstring" where
  "escapeChar c =
     (if c = chAmp then u16 ''&amp;''
      else if c = chNbsp then u16 ''&nbsp;''
      else if c = chLt then u16 ''&lt;''
      else if c = chGt then u16 ''&gt;''
      else [c])"

text \<open>\<open>lit p s\<close>: the string \<open>s\<close> starts with \<open>p\<close>; the result is what follows.\<close>

definition lit :: "jsstring \<Rightarrow> jsstring \<Rightarrow> jsstring option" where
  "lit p s = (if take (length p) s = p then Some (drop (length p) s) else None)"

text \<open>
  The consumer of the escaped text reads it as markup. Of that reading, the part that
  matters for text without tags is the decoding of the four character references the
  Escaper can emit; \<open>decodeEntities\<close> is that decoding. \<open>ampsOk\<close> says that every
  \<open>&\<close> of a string starts one of those four references, that is, no \<open>&\<close> is raw.
\<close>

definition entityAt :: "jsstring \<Rightarrow> (jschar \<times> jsstring) option" where
  "entityAt s =
     (case lit (u16 ''&amp;'') s of Some r \<Rightarrow> Some (chAmp, r) | None \<Rightarrow>
     (case lit (u16 ''&nbsp;'') s of Some r \<Rightarrow> Some (chNbsp, r) | None \<Rightarrow>
     (case lit (u16 ''&lt;'') s of Some r \<Rightarrow> Some (chLt, r) | None \<Rightarrow>
     (case lit (u16 ''&gt;'') s of Some r \<Rightarrow> Some (chGt, r) | None \<Rightarrow> None))))"

fun ampsOk :: "jsstring \<Rightarrow> bool" where
  "ampsOk [] = True"
| "ampsOk (c # cs) = (if c = chAmp then entityAt (c # cs) \<noteq> None \<and> ampsOk cs else ampsOk cs)"

lemma lit_Some_iff: "lit p s = Some r \<longleftrightarrow> s = p @ r"
  by (auto simp: lit_def) (metis append_take_drop_id)

lemma lit_append [simp]: "lit p (p @ r) = Some r"
  by (simp add: lit_Some_iff)

lemma entityAt_shorter: "entityAt s = Some (c, r) \<Longrightarrow> length r < length s"
  by (auto simp: entityAt_def lit_Some_iff u16_def split: option.splits)

function decodeEntities :: "jsstring \<Rightarrow> jsstring" where
  "decodeEntities [] = []"
| "decodeEntities (c # cs) =
     (case entityAt (c # cs) of
        Some (d, r) \<Rightarrow> d # decodeEntities r
      | None \<Rightarrow> c # decodeEntities cs)"
  by pat_completeness auto
termination
  by (relation "measure length") (auto dest: entityAt_shorter)

section \<open>Regular expressions\<close>

text \<open>
  The formatter's patterns are sequences of literals, look-arounds and quantified
  single-character classes. A backtracking matcher tries the repetition counts of a
  quantified class one after the other, a greedy quantifier from the longest run down, a
  lazy one from the shortest up, and takes the first count for which the rest of the
  pattern (the continuation \<open>k\<close>) matches. The continuation receives the text the
  quantifier consumed and the input that follows it.
\<close>

datatype greed = Greedy | Lazy

fun firstSome :: "('a \<Rightarrow> 'b option) \<Rightarrow> 'a list \<Rightarrow> 'b option" where
  "firstSome f [] = None"
| "firstSome f (x # xs) = (case f x of Some y \<Rightarrow> Some y | None \<Rightarrow> firstSome f xs)"

definition quant ::
  "greed \<Rightarrow> nat \<Rightarrow> nat option \<Rightarrow> (jschar \<Rightarrow> bool) \<Rightarrow>
   (jsstring \<Rightarrow> jsstring \<Rightarrow> 'r option) \<Rightarrow> jsstring \<Rightarrow> 'r option" where
  "quant g lo hi cls k s =
     (let run = length (takeWhile cls s);
          most = (case hi of None \<Rightarrow> run | Some h \<Rightarrow> min h run);
          counts = [lo ..< Suc most]
      in firstSome (\<lambda>n. k (take n s) (drop n s))
           (case g of Greedy \<Rightarrow> rev counts | Lazy \<Rightarrow> counts))"

text \<open>Negative look-ahead for one character: \<open>(?!m)\<close>.\<close>

definition notAhead :: "jschar \<Rightarrow> jsstring \<Rightarrow> bool" where
  "notAhead m s = (case s of [] \<Rightarrow> True | c # _ \<Rightarrow> c \<noteq> m)"

section \<open>Inline Formatter\<close>

text \<open>
  \<^verbatim>\<open>/\*\*(.+?)\*\*/\<close> tried at the start of \<open>s\<close>: the captured group and the input after
  the match.
\<close>

definition boldAt :: "jsstring \<Rightarrow> (jsstring \<times> jsstring) option" where
  "boldAt s =
     (case lit (u16 ''**'') s of
        None \<Rightarrow> None
      | Some t \<Rightarrow>
          quant Lazy 1 None isDot
            (\<lambda>p1 u. case lit (u16 ''**'') u of None \<Rightarrow> None | Some rest \<Rightarrow> Some (p1, rest)) t)"

text \<open>
  \<^verbatim>\<open>/(?<!\*)\*(?!\*)([^*]+?)\*(?!\*)/\<close> and \<^verbatim>\<open>/(?<!_)_(?!_)([^_]+?)_(?!_)/\<close>, for the
  marker \<open>m\<close>, tried at the start of \<open>s\<close>; \<open>prev\<close> is the code unit of the subject string
  just before \<open>s\<close>, which the look-behind inspects (\<open>None\<close> at the start of the subject).
\<close>

definition emAt :: "jschar \<Rightarrow> jschar option \<Rightarrow> jsstring \<Rightarrow> (jsstring \<times> jsstring) option" where
  "emAt m prev s =
     (if prev = Some m then None
      else case lit [m] s of
        None \<Rightarrow> None
      | Some t \<Rightarrow>
          if notAhead m t then
            quant Lazy 1 None (\<lambda>c. c \<noteq> m)
              (\<lambda>p1 u. case lit [m] u of
                         None \<Rightarrow> None
                       | Some rest \<Rightarrow> if notAhead m rest then Some (p1, rest) else None) t
          else None)"

definition strong :: "jsstring \<Rightarrow> jsstring" where
  "strong p1 = u16 ''<strong>'' @ p1 @ u16 ''</strong>''"

definition em :: "jsstring \<Rightarrow> jsstring" where
  "em p1 = u16 ''<em>'' @ p1 @ u16 ''</em>''"

lemma firstSome_SomeD: "firstSome f xs = Some y \<Longrightarrow> \<exists>x \<in> set xs. f x = Some y"
  by (induction xs) (auto split: option.splits)

lemma firstSome_None_iff: "firstSome f xs = None \<longleftrightarrow> (\<forall>x \<in> set xs. f x = None)"
  by (induction xs) (auto split: option.splits)

lemma quant_SomeD:
  assumes "quant g lo hi cls k s = Some r"
  shows "\<exists>n. lo \<le> n \<and> n \<le> length (takeWhile cls s) \<and> k (take n s) (drop n s) = Some r"
proof -
  let ?run = "length (takeWhile cls s)"
  let ?most = "case hi of None \<Rightarrow> ?run | Some h \<Rightarrow> min h ?run"
  let ?order = "case g of Greedy \<Rightarrow> rev [lo ..< Suc ?most] | Lazy \<Rightarrow> [lo ..< Suc ?most]"
  from assms have "firstSome (\<lambda>n. k (take n s) (drop n s)) ?order = Some r"
    unfolding quant_def Let_def .
  then obtain n where "n \<in> set ?order" and kn: "k (take n s) (drop n s) = Some r"
    by (blast dest: firstSome_SomeD)
  moreover have "set ?order = set [lo ..< Suc ?most]"
    by (cases g) simp_all
  ultimately have n: "lo \<le> n" "n \<le> ?most"
    by auto
  have "?most \<le> ?run" by (cases hi) auto
  with n kn show ?thesis by (intro exI [of _ n]) simp
qed

lemma boldAt_SomeD:
  assumes "boldAt s = Some (p1, rest)"
  shows "s = u16 ''**'' @ p1 @ u16 ''**'' @ rest \<and> p1 \<noteq> []"
proof -
  from assms obtain t where t: "s = u16 ''**'' @ t"
    and q: "quant Lazy 1 None isDot
              (\<lambda>p1 u. case lit (u16 ''**'') u of None \<Rightarrow> None | Some rest \<Rightarrow> Some (p1, rest)) t
            = Some (p1, rest)"
    by (auto simp: boldAt_def lit_Some_iff split: option.splits)
  from quant_SomeD [OF q] obtain n where n: "1 \<le> n" "n \<le> length (takeWhile isDot t)"
    and k: "(case lit (u16 ''**'') (drop n t) of None \<Rightarrow> None | Some rest \<Rightarrow> Some (take n t, rest))
            = Some (p1, rest)"
    by blast
  from k have p1: "p1 = take n t" and d: "drop n t = u16 ''**'' @ rest"
    by (auto simp: lit_Some_iff split: option.splits)
  have "length (takeWhile isDot t) \<le> length t" by (rule length_takeWhile_le)
  with n have "p1 \<noteq> []" unfolding p1 by auto
  moreover have "t = p1 @ u16 ''**'' @ rest"
    using append_take_drop_id [of n t] p1 d by simp
  ultimately show ?thesis using t by simp
qed

lemma emAt_SomeD:
  assumes "emAt m prev s = Some (p1, rest)"
  shows "s = m # p1 @ m # rest \<and> p1 \<noteq> [] \<and> m \<notin> set p1 \<and> prev \<noteq> Some m \<and> notAhead m rest"
proof -
  let ?k = "\<lambda>p1 u. case lit [m] u of
                      None \<Rightarrow> None
                    | Some rest \<Rightarrow> if notAhead m rest then Some (p1, rest) else None"
  from assms have prev: "prev \<noteq> Some m"
    by (auto simp: emAt_def split: if_splits)
  with assms obtain t where t: "s = m # t"
    and q: "quant Lazy 1 None (\<lambda>c. c \<noteq> m) ?k t = Some (p1, rest)"
    by (auto simp: emAt_def lit_Some_iff split: option.splits if_splits)
  from quant_SomeD [OF q] obtain n where n: "1 \<le> n" "n \<le> length (takeWhile (\<lambda>c. c \<noteq> m) t)"
    and k: "?k (take n t) (drop n t) = Some (p1, rest)"
    by blast
  from k have p1: "p1 = take n t" and d: "drop n t = m # rest" and na: "notAhead m rest"
    by (auto simp: lit_Some_iff split: option.splits if_splits)
  have le: "length (takeWhile (\<lambda>c. c \<noteq> m) t) \<le> length t" by (rule length_takeWhile_le)
  with n have ne: "p1 \<noteq> []" unfolding p1 by auto
  have "take n t = take n (takeWhile (\<lambda>c. c \<noteq> m) t)"
    using n(2) by (metis takeWhile_dropWhile_id take_append append.right_neutral diff_is_0_eq' take_0)
  then have "set p1 \<subseteq> set (takeWhile (\<lambda>c. c \<noteq> m) t)"
    unfolding p1 by (metis set_take_subset)
  then have nm: "m \<notin> set p1"
    by (auto dest: set_takeWhileD)
  have "t = p1 @ m # rest"
    using append_take_drop_id [of n t] p1 d by simp
  with t ne nm prev na show ?thesis by simp
qed

text \<open>
  \<open>String.prototype.replace\<close> with a global pattern: the pattern is tried at each
  position from left to right; a match is replaced by the callback's result and the scan
  goes on after it, other code units are copied.
\<close>

function replaceBold :: "jsstring \<Rightarrow> jsstring" where
  "replaceBold [] = []"
| "replaceBold (c # cs) =
     (case boldAt (c # cs) of
        Some (p1, rest) \<Rightarrow> strong p1 @ replaceBold rest
      | None \<Rightarrow> c # replaceBold cs)"
  by pat_completeness auto
termination
  by (relation "measure length") (auto dest!: boldAt_SomeD simp: u16_def)

function replaceEm :: "jschar \<Rightarrow> jschar option \<Rightarrow> jsstring \<Rightarrow> jsstring" where
  "replaceEm m prev [] = []"
| "replaceEm m prev (c # cs) =
     (case emAt m prev (c # cs) of
        Some (p1, rest) \<Rightarrow> em p1 @ replaceEm m (Some m) rest
      | None \<Rightarrow> c # replaceEm m (Some c) cs)"
  by pat_completeness auto
termination
  by (relation "measure (\<lambda>(m, prev, s). length s)") (auto dest!: emAt_SomeD)

text \<open>
  \<^verbatim>\<open>function applyInlineFormatting(text)\<close>: bold first, then italics with asterisks,
  then italics with underscores, each on the result of the one before.
\<close>

definition applyInlineFormatting :: "jsstring \<Rightarrow> jsstring" where
  "applyInlineFormatting text =
     replaceEm chUnderscore None (replaceEm chStar None (replaceBold text))"

text \<open>The number of code units of a string that are the marker \<open>m\<close>.\<close>

definition occurrences :: "jschar \<Rightarrow> jsstring \<Rightarrow> nat" where
  "occurrences m s = length (filter (\<lambda>c. c = m) s)"

section \<open>Block Formatter\<close>

text \<open>
  \<^verbatim>\<open>line.match(/^(#{1,6})\s+(.+)$/)\<close>: the length of the first group and the second
  group.
\<close>

definition headingMatch :: "jsstring \<Rightarrow> (nat \<times> jsstring) option" where
  "headingMatch line =
     quant Greedy 1 (Some 6) (\<lambda>c. c = chHash)
       (\<lambda>g1 r1. quant Greedy 1 None isSpace
          (\<lambda>_ r2. quant Greedy 1 None isDot
             (\<lambda>g2 r3. if r3 = [] then Some (length g1, g2) else None) r2) r1) line"

definition isBulletChar :: "jschar \<Rightarrow> bool" where
  "isBulletChar c = (c = chMinus \<or> c = chStar \<or> c = chPlus)"

text \<open>\<^verbatim>\<open>line.match(/^\s*([-*+])\s+(.*)$/)\<close>: the second group.\<close>

definition bulletMatch :: "jsstring \<Rightarrow> jsstring option" where
  "bulletMatch line =
     quant Greedy 0 None isSpace
       (\<lambda>_ r1. case r1 of
           [] \<Rightarrow> None
         | c # r2 \<Rightarrow>
             if isBulletChar c then
               quant Greedy 1 None isSpace
                 (\<lambda>_ r3. quant Greedy 0 None isDot
                    (\<lambda>g2 r4. if r4 = [] then Some g2 else None) r3) r2
             else None) line"

text \<open>\<^verbatim>\<open>/^#{1,6}\s+/.test(nextLine)\<close> and \<^verbatim>\<open>/^\s*[-*+]\s+/.test(nextLine)\<close>.\<close>

definition nextIsHeading :: "jsstring \<Rightarrow> bool" where
  "nextIsHeading nextLine =
     (quant Greedy 1 (Some 6) (\<lambda>c. c = chHash)
        (\<lambda>_ r1. quant Greedy 1 None isSpace (\<lambda>_ _. Some ()) r1) nextLine \<noteq> None)"

definition nextIsBullet :: "jsstring \<Rightarrow> bool" where
  "nextIsBullet nextLine =
     (quant Greedy 0 None isSpace
        (\<lambda>_ r1. case r1 of
            [] \<Rightarrow> None
          | c # r2 \<Rightarrow>
              if isBulletChar c then quant Greedy 1 None isSpace (\<lambda>_ _. Some ()) r2
              else None) nextLine \<noteq> None)"

text \<open>
  \<^verbatim>\<open>safe.split(/\r?\n/)\<close>: a separator is a line feed, together with the carriage
  return just before it when there is one.
\<close>

fun splitLines :: "jsstring \<Rightarrow> jsstring list" where
  "splitLines [] = [[]]"
| "splitLines (c # cs) =
     (if c = chCR \<and> cs \<noteq> [] \<and> hd cs = chLF then [] # splitLines (tl cs)
      else if c = chLF then [] # splitLines cs
      else (case splitLines cs of
              [] \<Rightarrow> [[c]]
            | l # ls \<Rightarrow> (c # l) # ls))"

text \<open>
  The line-break decision of the loop body, for a regular line that has been formatted
  (the source tests the formatted line for emptiness) and the lines that follow it.
\<close>

definition lineBreak :: "jsstring \<Rightarrow> jsstring list \<Rightarrow> jsstring" where
  "lineBreak line more =
     (case more of
        [] \<Rightarrow> []
      | nextLine # _ \<Rightarrow>
          (let currentIsEmpty = (trim line = []);
               nextIsEmpty = (trim nextLine = [])
           in if \<not> nextIsHeading nextLine \<and> \<not> nextIsBullet nextLine \<and>
                 \<not> currentIsEmpty \<and> \<not> nextIsEmpty
              then u16 ''<br>''
              else if currentIsEmpty \<or> nextIsEmpty then u16 ''<br>''
              else []))"

text \<open>
  The loop of \<open>formatMessage\<close> over the lines from index \<open>i\<close> on, with the flag
  \<open>inList\<close>; the result is what the loop and the closing of the list append to
  \<open>formatted\<close>.
\<close>

fun formatLoop :: "bool \<Rightarrow> jsstring list \<Rightarrow> jsstring" where
  "formatLoop inList [] = (if inList then u16 ''</ul>'' else [])"
| "formatLoop inList (line # more) =
     (case headingMatch line of
        Some (level, headingText) \<Rightarrow>
          (if inList then u16 ''</ul>'' else []) @
          u16 ''<h'' @ decimal level @ u16 ''>'' @ applyInlineFormatting headingText @
          u16 ''</h'' @ decimal level @ u16 ''>'' @
          formatLoop False more
      | None \<Rightarrow>
         (case bulletMatch line of
            Some item \<Rightarrow>
              (if \<not> inList then u16 ''<ul>'' else []) @
              u16 ''<li>'' @ applyInlineFormatting item @ u16 ''</li>'' @
              formatLoop True more
          | None \<Rightarrow>
              (if inList then u16 ''</ul>'' else []) @
              applyInlineFormatting line @
              lineBreak (applyInlineFormatting line) more @
              formatLoop False more))"

definition formatMessage :: "jsstring \<Rightarrow> jsstring" where
  "formatMessage text =
     (if text = [] then [] else formatLoop False (splitLines (escapeHtml text)))"

subsection \<open>Kinds of line\<close>

text \<open>
  The kinds of line the Block Formatter distinguishes, stated on the line itself and
  without the matcher.
  \<^item> A line is blank when it is empty or has white space only.
  \<^item> A line starts a heading when it begins with one to six \<open>#\<close> followed by a
    white-space character.
  \<^item> A line starts a bullet when it begins with optional white space, then one of
    \<open>-\<close>, \<open>*\<close>, \<open>+\<close>, then a white-space character.
  \<^item> A heading line is, from its first to its last character: one to six \<open>#\<close>, at
    least one white-space character, and a remaining text that is not empty and has no
    line terminator.
  \<^item> A bullet line is, from its first to its last character: optional white space, one
    of \<open>-\<close>, \<open>*\<close>, \<open>+\<close>, at least one white-space character, and a remaining text
    (which may be empty) that has no line terminator.
  \<^item> A prose line is neither a heading line nor a bullet line.
  That the patterns of \<open>formatMessage\<close> accept exactly these lines is proved with the
  properties of the Block Formatter.
\<close>

definition blankLine :: "jsstring \<Rightarrow> bool" where
  "blankLine l = list_all isSpace l"

definition headingStart :: "jsstring \<Rightarrow> bool" where
  "headingStart l =
     list_ex (\<lambda>k. take k l = replicate k chHash \<and>
                  (case drop k l of [] \<Rightarrow> False | c # _ \<Rightarrow> isSpace c)) [1 ..< 7]"

definition bulletStart :: "jsstring \<Rightarrow> bool" where
  "bulletStart l =
     list_ex (\<lambda>i. list_all isSpace (take i l) \<and>
                  (case drop i l of
                     c # d # _ \<Rightarrow> isBulletChar c \<and> isSpace d
                   | _ \<Rightarrow> False)) [0 ..< length l]"

definition headingLine :: "jsstring \<Rightarrow> bool" where
  "headingLine l =
     list_ex (\<lambda>k. take k l = replicate k chHash \<and>
        list_ex (\<lambda>j. j \<le> length (drop k l) \<and> list_all isSpace (take j (drop k l)) \<and>
                     drop j (drop k l) \<noteq> [] \<and> list_all isDot (drop j (drop k l)))
          [1 ..< Suc (length l)]) [1 ..< 7]"

definition bulletLine :: "jsstring \<Rightarrow> bool" where
  "bulletLine l =
     list_ex (\<lambda>i. list_all isSpace (take i l) \<and>
        (case drop i l of
           [] \<Rightarrow> False
         | c # r \<Rightarrow> isBulletChar c \<and>
             list_ex (\<lambda>j. j \<le> length r \<and> list_all isSpace (take j r) \<and>
                          list_all isDot (drop j r)) [1 ..< Suc (length l)])) [0 ..< length l]"

definition proseLine :: "jsstring \<Rightarrow> bool" where
  "proseLine l = (\<not> headingLine l \<and> \<not> bulletLine l)"

section \<open>Transcript\<close>

text \<open>
  \<open>chatHistory\<close> is an array of objects with a role, a content and, on the seeded
  greeting only, the property \<open>initial: true\<close>; an object pushed without that property
  has \<open>initial = False\<close> here, which is what \<open>m.initial === true\<close> tests. The module
  state is \<open>chatHistory\<close>, \<open>userProfile.name\<close> (\<open>null\<close> is \<open>None\<close>) and
  \<open>hasAskedName\<close>. \<open>renderChat\<close> and \<open>saveState\<close> write the page and the
  local storage and leave the three variables as they are, so they do not appear.
\<close>

datatype role = User | Assistant

record entry =
  role :: role
  content :: jsstring
  initial :: bool

record state =
  chatHistory :: "entry list"
  userName :: "jsstring option"
  hasAskedName :: bool

definition userEntry :: "jsstring \<Rightarrow> entry" where
  "userEntry c = \<lparr>role = User, content = c, initial = False\<rparr>"

definition assistantEntry :: "jsstring \<Rightarrow> entry" where
  "assistantEntry c = \<lparr>role = Assistant, content = c, initial = False\<rparr>"

definition push :: "entry \<Rightarrow> state \<Rightarrow> state" where
  "push m st = st\<lparr>chatHistory := chatHistory st @ [m]\<rparr>"

definition greeting :: jsstring where
  "greeting =
     [0xD83D, 0xDC4B] @ u16 '' Hello! I'm the L'Or'' @ [0xE9] @ u16 ''al Product Advisor '' @
     [0x2014] @ u16 '' I can help with L'Or'' @ [0xE9] @
     u16 ''al products, skincare and haircare routines, and recommendations. '' @
     u16 ''What would you like to know?''"

definition seedEntry :: entry where
  "seedEntry = \<lparr>role = Assistant, content = greeting, initial = True\<rparr>"

text \<open>\<^verbatim>\<open>if (chatHistory.length === 0) { chatHistory.push({..., initial: true}); }\<close>\<close>

definition seed :: "state \<Rightarrow> state" where
  "seed st = (if chatHistory st = [] then push seedEntry st else st)"

definition initialState :: state where
  "initialState = seed \<lparr>chatHistory = [], userName = None, hasAskedName = False\<rparr>"

text \<open>The two filter predicates of the submit handler, negated as the source negates them.\<close>

definition isSeed :: "entry \<Rightarrow> bool" where
  "isSeed m = (role m = Assistant \<and> initial m = True)"

definition thinking :: jsstring where
  "thinking = u16 ''Thinking...''"

definition isThinking :: "entry \<Rightarrow> bool" where
  "isThinking m = (role m = Assistant \<and> content m = thinking)"

definition removeSeed :: "state \<Rightarrow> state" where
  "removeSeed st = st\<lparr>chatHistory := filter (\<lambda>m. \<not> isSeed m) (chatHistory st)\<rparr>"

definition removeThinking :: "state \<Rightarrow> state" where
  "removeThinking st = st\<lparr>chatHistory := filter (\<lambda>m. \<not> isThinking m) (chatHistory st)\<rparr>"

subsection \<open>The network call\<close>

text \<open>
  What the network gives back, as far as \<open>callOpenAI\<close> looks at it:
  \<^item> \<open>Thrown msg\<close>: one of the awaited platform calls (\<open>fetch\<close>, \<open>res.text()\<close>,
    \<open>res.json()\<close>) or the read of \<open>data.choices\<close> throws an error with this message;
  \<^item> \<open>NotOk status text\<close>: \<open>res.ok\<close> is false, with the status and the body text;
  \<^item> \<open>Payload c\<close>: \<open>res.ok\<close> is true and
    \<open>data.choices?.[0]?.message?.content\<close> is the string \<open>c\<close>, or is \<open>null\<close> or
    \<open>undefined\<close> (\<open>None\<close>).
  An exception is a value \<open>Inl message\<close>; \<open>tryBody\<close> is the \<open>try\<close> block and
  \<open>callOpenAI\<close> adds the \<open>catch\<close> block. The \<open>finally\<close> block touches the input
  controls only.
\<close>

datatype response =
    Thrown jsstring
  | NotOk nat jsstring
  | Payload "jsstring option"

definition tryBody :: "response \<Rightarrow> state \<Rightarrow> jsstring + state" where
  "tryBody res st =
     (case res of
        Thrown message \<Rightarrow> Inl message
      | NotOk status text \<Rightarrow>
          Inl (u16 ''Worker proxy error: '' @ decimal status @ u16 '' '' @ text)
      | Payload c \<Rightarrow>
          (let assistantContent =
                 (case c of Some reply \<Rightarrow> reply
                  | None \<Rightarrow> u16 ''Sorry, I did not receive a reply.'')
           in Inr (push (assistantEntry assistantContent) st)))"

definition callOpenAI :: "response \<Rightarrow> state \<Rightarrow> jsstring + state" where
  "callOpenAI res st =
     (case tryBody res st of
        Inr st' \<Rightarrow> Inr st'
      | Inl message \<Rightarrow> Inr (push (assistantEntry (u16 ''Error: '' @ message)) st))"

subsection \<open>The submit handler\<close>

text \<open>
  \<open>text.toLowerCase().startsWith("/name ")\<close>. Lower-casing maps \<open>A\<close> to \<open>Z\<close> onto
  \<open>a\<close> to \<open>z\<close>, and no other code unit onto one of the six characters of the prefix,
  so the test reads the first six code units of the text.
\<close>

definition toLowerAscii :: "jschar \<Rightarrow> jschar" where
  "toLowerAscii c = (if 0x41 \<le> c \<and> c \<le> 0x5A then c + 0x20 else c)"

definition isNameCommand :: "jsstring \<Rightarrow> bool" where
  "isNameCommand text = (map toLowerAscii (take 6 text) = u16 ''/name '')"

definition ack :: "jsstring \<Rightarrow> entry" where
  "ack name =
     assistantEntry (u16 ''Nice to meet you, '' @ name @
                     u16 ''. I'll remember that for this session.'')"

text \<open>The result of \<open>prompt(...)\<close>: it throws, or returns a string or \<open>null\<close>.\<close>

datatype promptResult = PromptThrows | PromptReturns "jsstring option"

definition askName :: "promptResult \<Rightarrow> state \<Rightarrow> state" where
  "askName p st =
     (if (userName st = None \<or> userName st = Some []) \<and> \<not> hasAskedName st then
        (case p of
           PromptThrows \<Rightarrow> st
         | PromptReturns None \<Rightarrow> st
         | PromptReturns (Some namePrompt) \<Rightarrow>
             if namePrompt \<noteq> [] \<and> trim namePrompt \<noteq> [] then
               push (ack (trim namePrompt)) (st\<lparr>userName := Some (trim namePrompt)\<rparr>)
             else st)
        \<lparr>hasAskedName := True\<rparr>
      else st)"

text \<open>
  The handler of the form's \<open>submit\<close> event, for the value of the input field, the
  outcome of the name prompt and the outcome of the network call.
\<close>

definition submitHandler ::
  "jsstring \<Rightarrow> promptResult \<Rightarrow> response \<Rightarrow> state \<Rightarrow> jsstring + state" where
  "submitHandler v p res st =
     (let text = trim v in
      if text = [] then Inr st
      else if isNameCommand text then
        (let name = trim (drop 6 text) in
         if name \<noteq> [] then Inr (push (ack name) (st\<lparr>userName := Some name\<rparr>))
         else Inr st)
      else
        callOpenAI res
          (removeThinking
            (push (assistantEntry thinking)
              (push (userEntry text)
                (removeSeed (askName p st))))))"

section \<open>Properties of the Escaper\<close>

lemma escapeHtml_append: "escapeHtml (a @ b) = escapeHtml a @ escapeHtml b"
  by (simp add: escapeHtml_def replaceChar_def)

lemma escapeHtml_single: "escapeHtml [c] = escapeChar c"
  by (simp add: escapeHtml_def replaceChar_def escapeChar_def u16_def)

lemma escapeHtml_Nil: "escapeHtml [] = []"
  by (simp add: escapeHtml_def replaceChar_def)

lemma escapeHtml_Cons: "escapeHtml (c # cs) = escapeChar c @ escapeHtml cs"
  using escapeHtml_append [of "[c]" cs] by (simp add: escapeHtml_single)

lemma escapeHtml_concat_map: "escapeHtml s = concat (map escapeChar s)"
  by (induction s) (simp_all add: escapeHtml_Nil escapeHtml_Cons)

lemma escapeChar_no_angle: "chLt \<notin> set (escapeChar c) \<and> chGt \<notin> set (escapeChar c)"
  by (simp add: escapeChar_def u16_def)

lemma escapeHtml_no_angle: "chLt \<notin> set (escapeHtml s) \<and> chGt \<notin> set (escapeHtml s)"
  using escapeChar_no_angle by (induction s) (simp_all add: escapeHtml_Nil escapeHtml_Cons)

lemma ampsOk_escapeChar: "ampsOk (escapeChar c @ t) = ampsOk t"
  by (simp add: escapeChar_def u16_def entityAt_def lit_def)

lemma ampsOk_escapeHtml: "ampsOk (escapeHtml s)"
  by (induction s) (simp_all add: escapeHtml_Nil escapeHtml_Cons ampsOk_escapeChar)

lemma decode_escapeChar: "decodeEntities (escapeChar c @ t) = c # decodeEntities t"
  by (simp add: escapeChar_def u16_def entityAt_def lit_def)

lemma decode_escapeHtml: "decodeEntities (escapeHtml s) = s"
  by (induction s) (simp_all add: escapeHtml_Nil escapeHtml_Cons decode_escapeChar)

lemma escapeChar_other:
  "c \<noteq> chLt \<Longrightarrow> c \<noteq> chGt \<Longrightarrow> c \<noteq> chAmp \<Longrightarrow> c \<noteq> chNbsp \<Longrightarrow> escapeChar c = [c]"
  by (simp add: escapeChar_def)

lemma escapeChar_quotes:
  "filter (\<lambda>x. x = chQuot \<or> x = chApos) (escapeChar c) = filter (\<lambda>x. x = chQuot \<or> x = chApos) [c]"
  by (simp add: escapeChar_def u16_def)

lemma escapeHtml_quotes:
  "filter (\<lambda>x. x = chQuot \<or> x = chApos) (escapeHtml s) = filter (\<lambda>x. x = chQuot \<or> x = chApos) s"
proof (induction s)
  case Nil
  show ?case by (simp add: escapeHtml_Nil)
next
  case (Cons c cs)
  have "filter (\<lambda>x. x = chQuot \<or> x = chApos) (escapeHtml (c # cs)) =
        filter (\<lambda>x. x = chQuot \<or> x = chApos) (escapeChar c) @
        filter (\<lambda>x. x = chQuot \<or> x = chApos) (escapeHtml cs)"
    by (simp add: escapeHtml_Cons)
  also have "\<dots> = filter (\<lambda>x. x = chQuot \<or> x = chApos) [c] @
                   filter (\<lambda>x. x = chQuot \<or> x = chApos) cs"
    by (simp only: escapeChar_quotes Cons.IH)
  finally show ?case by simp
qed

lemma escapeHtml_quot_mem: "(chQuot \<in> set (escapeHtml s)) = (chQuot \<in> set s)"
  by (induction s) (simp_all add: escapeHtml_Nil escapeHtml_Cons escapeChar_def u16_def)

lemma escapeHtml_apos_mem: "(chApos \<in> set (escapeHtml s)) = (chApos \<in> set s)"
  by (induction s) (simp_all add: escapeHtml_Nil escapeHtml_Cons escapeChar_def u16_def)

lemma escapeHtml_quote_chars: "escapeHtml [chQuot] = [chQuot] \<and> escapeHtml [chApos] = [chApos]"
  by (simp add: escapeHtml_single escapeChar_def)

text \<open>
  C1, as the code has it. The claim holds but for one character: U+00A0 is neither
  \<open><\<close>, \<open>>\<close> nor \<open>&\<close>, and the Escaper replaces it by \<open>&nbsp;\<close>.
\<close>

theorem C1_nbsp_is_replaced:
  "chNbsp \<noteq> chLt \<and> chNbsp \<noteq> chGt \<and> chNbsp \<noteq> chAmp \<and>
   escapeHtml [chNbsp] = u16 ''&nbsp;'' \<and> escapeHtml [chNbsp] \<noteq> [chNbsp]"
  by (simp add: escapeHtml_single escapeChar_def u16_def)

text \<open>
  C1, amended. For every input string the output of the Escaper holds no \<open><\<close> and no
  \<open>>\<close>, and every \<open>&\<close> in it starts one of the references \<open>&amp;\<close>, \<open>&nbsp;\<close>,
  \<open>&lt;\<close>, \<open>&gt;\<close>. The output is the concatenation of the images of the input's
  code units: \<open><\<close>, \<open>>\<close>, \<open>&\<close> and U+00A0 become their references, and every other
  code unit, Unicode and newlines among them, is passed through unchanged. Decoding the
  references of the output gives the input back, so the output read as markup is the
  input as plain text.
\<close>

theorem C1_escapeHtml:
  "chLt \<notin> set (escapeHtml s) \<and> chGt \<notin> set (escapeHtml s) \<and> ampsOk (escapeHtml s) \<and>
   escapeHtml s = concat (map escapeChar s) \<and>
   escapeChar chLt = u16 ''&lt;'' \<and> escapeChar chGt = u16 ''&gt;'' \<and>
   escapeChar chAmp = u16 ''&amp;'' \<and> escapeChar chNbsp = u16 ''&nbsp;'' \<and>
   (\<forall>c. c \<noteq> chLt \<and> c \<noteq> chGt \<and> c \<noteq> chAmp \<and> c \<noteq> chNbsp \<longrightarrow> escapeChar c = [c]) \<and>
   decodeEntities (escapeHtml s) = s"
proof -
  have "escapeChar chLt = u16 ''&lt;'' \<and> escapeChar chGt = u16 ''&gt;'' \<and>
        escapeChar chAmp = u16 ''&amp;'' \<and> escapeChar chNbsp = u16 ''&nbsp;''"
    by (simp add: escapeChar_def)
  moreover have "\<forall>c. c \<noteq> chLt \<and> c \<noteq> chGt \<and> c \<noteq> chAmp \<and> c \<noteq> chNbsp \<longrightarrow> escapeChar c = [c]"
    by (simp add: escapeChar_other)
  ultimately show ?thesis
    using escapeHtml_no_angle [of s] ampsOk_escapeHtml [of s] escapeHtml_concat_map [of s]
      decode_escapeHtml [of s]
    by blast
qed

theorem C1_escapeHtml_witness:
  "escapeChar chLF = [chLF] \<and> escapeChar 0xE9 = [0xE9] \<and> escapeChar 0xD83D = [0xD83D] \<and>
   escapeHtml (u16 ''a<b>&'' @ [chLF, 0xE9]) = u16 ''a&lt;b&gt;&amp;'' @ [chLF, 0xE9] \<and>
   decodeEntities (escapeHtml (u16 ''a<b>&'' @ [chLF, 0xE9])) = u16 ''a<b>&'' @ [chLF, 0xE9]"
proof -
  note inst = C1_escapeHtml [of "u16 ''a<b>&'' @ [chLF, 0xE9]"]
  from inst have other:
    "\<forall>c. c \<noteq> chLt \<and> c \<noteq> chGt \<and> c \<noteq> chAmp \<and> c \<noteq> chNbsp \<longrightarrow> escapeChar c = [c]"
    by blast
  have "escapeChar chLF = [chLF]" "escapeChar 0xE9 = [0xE9]" "escapeChar 0xD83D = [0xD83D]"
    using other by simp_all
  moreover from inst have "escapeHtml (u16 ''a<b>&'' @ [chLF, 0xE9]) =
      concat (map escapeChar (u16 ''a<b>&'' @ [chLF, 0xE9]))"
    by blast
  then have "escapeHtml (u16 ''a<b>&'' @ [chLF, 0xE9]) = u16 ''a&lt;b&gt;&amp;'' @ [chLF, 0xE9]"
    by (simp add: u16_def escapeChar_def)
  moreover from inst have
    "decodeEntities (escapeHtml (u16 ''a<b>&'' @ [chLF, 0xE9])) = u16 ''a<b>&'' @ [chLF, 0xE9]"
    by blast
  ultimately show ?thesis by blast
qed

lemma escapeChar_changed_iff:
  "(escapeChar c \<noteq> [c]) = (c = chLt \<or> c = chGt \<or> c = chAmp \<or> c = chNbsp)"
  by (simp add: escapeChar_def u16_def)

text \<open>
  C10, as the code has it. The quote characters stay, but it is not only \<open><\<close>, \<open>>\<close>
  and \<open>&\<close> that are replaced: in \<open>"a b\<close>, U+00A0, \<open>'\<close> the Escaper replaces U+00A0,
  which is none of the three, by \<open>&nbsp;\<close>.
\<close>

theorem C10_nbsp_replaced:
  "escapeHtml (chQuot # u16 ''a b'' @ [chNbsp, chApos]) = chQuot # u16 ''a b&nbsp;'' @ [chApos] \<and>
   escapeChar chNbsp \<noteq> [chNbsp] \<and>
   chNbsp \<noteq> chLt \<and> chNbsp \<noteq> chGt \<and> chNbsp \<noteq> chAmp"
  by code_simp

text \<open>
  C10, amended. The Escaper leaves both quote characters as they are: a single quote
  character is its own image, the quote characters of the output are those of the input,
  in the same order, and so the output holds a raw \<open>"\<close> (a raw \<open>'\<close>) exactly when the
  input holds one. The output is made code unit by code unit, and the code units that
  are replaced are exactly \<open><\<close>, \<open>>\<close>, \<open>&\<close> and U+00A0.
\<close>

theorem C10_quotes_unchanged:
  "escapeHtml [chQuot] = [chQuot] \<and> escapeHtml [chApos] = [chApos] \<and>
   filter (\<lambda>x. x = chQuot \<or> x = chApos) (escapeHtml s) = filter (\<lambda>x. x = chQuot \<or> x = chApos) s \<and>
   (chQuot \<in> set (escapeHtml s)) = (chQuot \<in> set s) \<and>
   (chApos \<in> set (escapeHtml s)) = (chApos \<in> set s) \<and>
   escapeHtml s = concat (map escapeChar s) \<and>
   (escapeChar c \<noteq> [c]) = (c = chLt \<or> c = chGt \<or> c = chAmp \<or> c = chNbsp)"
  using escapeHtml_quote_chars escapeHtml_quotes [of s] escapeHtml_quot_mem [of s]
    escapeHtml_apos_mem [of s] escapeHtml_concat_map [of s] escapeChar_changed_iff [of c]
  by (intro conjI) (simp_all only:)

section \<open>Properties of the Inline Formatter\<close>

lemma occurrences_simps [simp]:
  "occurrences m [] = 0"
  "occurrences m (c # cs) = (if c = m then Suc (occurrences m cs) else occurrences m cs)"
  "occurrences m (a @ b) = occurrences m a + occurrences m b"
  by (simp_all add: occurrences_def)

lemma occurrences_0_iff: "occurrences m s = 0 \<longleftrightarrow> m \<notin> set s"
  by (induction s) auto

lemma boldAt_occurrences: "boldAt s = Some (p1, rest) \<Longrightarrow> 4 \<le> occurrences chStar s"
  by (drule boldAt_SomeD) (auto simp: u16_def)

lemma emAt_occurrences: "emAt m prev s = Some (p1, rest) \<Longrightarrow> 2 \<le> occurrences m s"
  by (drule emAt_SomeD) auto

lemma replaceBold_few: "occurrences chStar s < 4 \<Longrightarrow> replaceBold s = s"
proof (induction s)
  case Nil
  show ?case by simp
next
  case (Cons c cs)
  have "boldAt (c # cs) = None"
  proof (cases "boldAt (c # cs)")
    case (Some r)
    then obtain p1 rest where "boldAt (c # cs) = Some (p1, rest)" by (cases r) auto
    from boldAt_occurrences [OF this] Cons.prems show ?thesis by simp
  qed
  moreover from Cons.prems have "occurrences chStar cs < 4" by (auto split: if_splits)
  ultimately show ?case using Cons.IH by simp
qed

lemma replaceEm_few: "occurrences m s < 2 \<Longrightarrow> replaceEm m prev s = s"
proof (induction s arbitrary: prev)
  case Nil
  show ?case by simp
next
  case (Cons c cs)
  have "emAt m prev (c # cs) = None"
  proof (cases "emAt m prev (c # cs)")
    case (Some r)
    then obtain p1 rest where "emAt m prev (c # cs) = Some (p1, rest)" by (cases r) auto
    from emAt_occurrences [OF this] Cons.prems show ?thesis by simp
  qed
  moreover from Cons.prems have "occurrences m cs < 2" by (auto split: if_splits)
  ultimately show ?case using Cons.IH by simp
qed

lemma inline_few:
  assumes "occurrences chStar s \<le> 1" and "occurrences chUnderscore s \<le> 1"
  shows "applyInlineFormatting s = s"
  using assms by (simp add: applyInlineFormatting_def replaceBold_few replaceEm_few)

lemma emAt_sameprev: "emAt m (Some m) s = None"
  by (simp add: emAt_def)


lemma emAt_starts_run: "emAt m prev (m # m # t) = None"
proof (cases "emAt m prev (m # m # t)")
  case (Some r)
  then obtain p1 rest where "emAt m prev (m # m # t) = Some (p1, rest)" by (cases r) auto
  from emAt_SomeD [OF this] have "m # t = p1 @ m # rest" "p1 \<noteq> []" "m \<notin> set p1" by auto
  then have False by (cases p1) auto
  then show ?thesis ..
qed simp







lemma firstSome_append:
  "firstSome f (xs @ ys) = (case firstSome f xs of Some y \<Rightarrow> Some y | None \<Rightarrow> firstSome f ys)"
  by (induction xs) (auto split: option.splits)

lemma firstSome_upt_last:
  assumes "a \<le> b" and "\<And>n. a \<le> n \<Longrightarrow> n < b \<Longrightarrow> f n = None"
  shows "firstSome f [a ..< Suc b] = f b"
proof -
  have "firstSome f [a ..< b] = None"
    using assms(2) by (simp add: firstSome_None_iff)
  moreover have "[a ..< Suc b] = [a ..< b] @ [b]"
    using assms(1) by simp
  ultimately show ?thesis
    by (simp only: firstSome_append) (simp split: option.splits)
qed

lemma notAhead_iff: "notAhead m s \<longleftrightarrow> (s = [] \<or> hd s \<noteq> m)"
  by (cases s) (simp_all add: notAhead_def)

lemma emAt_SomeI:
  assumes prev: "prev \<noteq> Some m" and ne: "p1 \<noteq> []" and nm: "m \<notin> set p1"
    and na: "rest = [] \<or> hd rest \<noteq> m"
  shows "emAt m prev (m # p1 @ m # rest) = Some (p1, rest)"
proof -
  let ?t = "p1 @ m # rest"
  let ?k = "\<lambda>p1 u. case lit [m] u of
                      None \<Rightarrow> None
                    | Some rest \<Rightarrow> if notAhead m rest then Some (p1, rest) else None"
  have run: "length (takeWhile (\<lambda>c. c \<noteq> m) ?t) = length p1"
  proof -
    have "takeWhile (\<lambda>c. c \<noteq> m) ?t = p1 @ takeWhile (\<lambda>c. c \<noteq> m) (m # rest)"
      using nm by (intro takeWhile_append2) auto
    then show ?thesis by simp
  qed
  have early: "?k (take n ?t) (drop n ?t) = None" if "1 \<le> n" "n < length p1" for n
  proof -
    from that have "drop n ?t = p1 ! n # drop (Suc n) p1 @ m # rest"
      by (simp add: Cons_nth_drop_Suc)
    moreover from that nm have "p1 ! n \<noteq> m" by (metis nth_mem)
    ultimately show ?thesis by (simp add: lit_def)
  qed
  have last: "?k (take (length p1) ?t) (drop (length p1) ?t) = Some (p1, rest)"
    using na by (simp add: lit_def notAhead_iff)
  have "1 \<le> length p1" using ne by (cases p1) simp_all
  then have "firstSome (\<lambda>n. ?k (take n ?t) (drop n ?t)) [1 ..< Suc (length p1)] = Some (p1, rest)"
    using early last by (subst firstSome_upt_last) simp_all
  then have q: "quant Lazy 1 None (\<lambda>c. c \<noteq> m) ?k ?t = Some (p1, rest)"
    unfolding quant_def Let_def run by simp
  have "notAhead m ?t" using ne nm by (cases p1) (auto simp: notAhead_def)
  with prev q show ?thesis
    by (simp add: emAt_def lit_def)
qed

lemma emAt_Some_iff:
  "emAt m prev s = Some (p1, rest) \<longleftrightarrow>
   prev \<noteq> Some m \<and> s = m # p1 @ m # rest \<and> p1 \<noteq> [] \<and> m \<notin> set p1 \<and>
   (rest = [] \<or> hd rest \<noteq> m)"
  using emAt_SomeD [of m prev s p1 rest] emAt_SomeI [of prev m p1 rest]
  by (auto simp: notAhead_iff)

lemma emAt_other_start: "c \<noteq> m \<Longrightarrow> emAt m prev (c # cs) = None"
  by (simp add: emAt_def lit_def)

lemma replaceEm_prev_irrelevant:
  assumes "v = [] \<or> hd v \<noteq> m"
  shows "replaceEm m prev v = replaceEm m prev' v"
proof (cases v)
  case Nil
  then show ?thesis by simp
next
  case (Cons c cs)
  with assms have "c \<noteq> m" by simp
  then show ?thesis using Cons by (simp add: emAt_other_start)
qed

lemma replaceEm_after_marker:
  "replaceEm m (Some m) (replicate k m @ v) = replicate k m @ replaceEm m (Some m) v"
  by (induction k) (simp_all add: emAt_sameprev)

lemma emAt_before_run:
  assumes u: "u \<noteq> []" "last u \<noteq> m"
  shows "emAt m prev (u @ m # m # w) =
         (case emAt m prev u of None \<Rightarrow> None | Some (p1, rest) \<Rightarrow> Some (p1, rest @ m # m # w))"
proof (cases "emAt m prev u")
  case (Some r)
  obtain p1 rest where r: "r = (p1, rest)" by (cases r)
  from Some r have e: "emAt m prev u = Some (p1, rest)" by simp
  then have d: "prev \<noteq> Some m" "u = m # p1 @ m # rest" "p1 \<noteq> []" "m \<notin> set p1"
    "rest = [] \<or> hd rest \<noteq> m"
    by (simp_all add: emAt_Some_iff)
  from d(2) u(2) have "rest \<noteq> []" by auto
  with d(5) have "rest @ m # m # w = [] \<or> hd (rest @ m # m # w) \<noteq> m" by simp
  with d have "emAt m prev (m # p1 @ m # (rest @ m # m # w)) = Some (p1, rest @ m # m # w)"
    by (intro emAt_SomeI)
  with d(2) e show ?thesis by simp
next
  case None
  have "emAt m prev (u @ m # m # w) = None"
  proof (cases "emAt m prev (u @ m # m # w)")
    case (Some r)
    obtain p1 rest' where r: "r = (p1, rest')" by (cases r)
    from Some r have "emAt m prev (u @ m # m # w) = Some (p1, rest')" by simp
    then have d: "prev \<noteq> Some m" "u @ m # m # w = m # p1 @ m # rest'" "p1 \<noteq> []"
      "m \<notin> set p1" "rest' = [] \<or> hd rest' \<noteq> m"
      by (simp_all add: emAt_Some_iff)
    from d(2) u(1) obtain cs where cs: "u = m # cs" by (cases u) auto
    with d(2) have eq: "cs @ m # m # w = p1 @ m # rest'" by simp
    show ?thesis
    proof (cases "m \<in> set cs")
      case True
      then obtain a b where ab: "cs = a @ m # b" "m \<notin> set a"
        by (meson split_list_first)
      with eq have "a @ m # (b @ m # m # w) = p1 @ m # rest'" by simp
      with ab(2) d(4) have "a = p1" "b @ m # m # w = rest'"
        by (auto simp: append_eq_append_conv2 append_eq_Cons_conv Cons_eq_append_conv)
      moreover from cs ab u(2) have "b \<noteq> []" by auto
      ultimately have "b = [] \<or> hd b \<noteq> m" using d(5) by auto
      with d(1,3,4) \<open>a = p1\<close> have "emAt m prev (m # p1 @ m # b) = Some (p1, b)"
        by (intro emAt_SomeI)
      with cs ab \<open>a = p1\<close> None show ?thesis by simp
    next
      case False
      with eq d(4) have "cs = p1" "m # w = rest'"
        by (auto simp: append_eq_append_conv2 append_eq_Cons_conv Cons_eq_append_conv)
      with d(5) show ?thesis by auto
    qed
  qed simp
  with None show ?thesis by simp
qed

lemma replaceEm_run_start:
  assumes "v = [] \<or> hd v \<noteq> m"
  shows "replaceEm m prev (m # m # replicate n m @ v) =
         m # m # replicate n m @ replaceEm m None v"
proof -
  have "replaceEm m (Some m) (replicate (Suc n) m @ v) =
        replicate (Suc n) m @ replaceEm m (Some m) v"
    by (rule replaceEm_after_marker)
  moreover have "replaceEm m (Some m) v = replaceEm m None v"
    using assms by (rule replaceEm_prev_irrelevant)
  ultimately show ?thesis
    using emAt_starts_run [of m prev "replicate n m @ v"] by simp
qed

lemma replaceEm_marker_run:
  "u = [] \<or> last u \<noteq> m \<Longrightarrow> v = [] \<or> hd v \<noteq> m \<Longrightarrow>
   replaceEm m prev (u @ m # m # replicate n m @ v) =
   replaceEm m prev u @ m # m # replicate n m @ replaceEm m None v"
proof (induction m prev u rule: replaceEm.induct)
  case (1 m prev)
  then show ?case using replaceEm_run_start [of v m prev n] by simp
next
  case (2 m prev c cs)
  let ?w = "replicate n m @ v"
  note v = "2.prems"(2)
  from "2.prems"(1) have l: "last (c # cs) \<noteq> m" by simp
  have at: "emAt m prev ((c # cs) @ m # m # ?w) =
      (case emAt m prev (c # cs) of None \<Rightarrow> None
       | Some (p1, rest) \<Rightarrow> Some (p1, rest @ m # m # ?w))"
    using l by (intro emAt_before_run) simp_all
  show ?case
  proof (cases "emAt m prev (c # cs)")
    case None
    from l have "cs = [] \<or> last cs \<noteq> m" by (cases cs) simp_all
    from "2.IH"(1) [OF None this v] have
      "replaceEm m (Some c) (cs @ m # m # ?w) =
       replaceEm m (Some c) cs @ m # m # replicate n m @ replaceEm m None v" .
    with None at show ?thesis by simp
  next
    case (Some r)
    obtain p1 rest where r: "r = (p1, rest)" by (cases r)
    from Some r have "c # cs = m # p1 @ m # rest"
      by (simp add: emAt_Some_iff)
    with l have "rest = [] \<or> last rest \<noteq> m" by (cases rest) auto
    from "2.IH"(2) [OF Some r [symmetric] this v] have
      "replaceEm m (Some m) (rest @ m # m # ?w) =
       replaceEm m (Some m) rest @ m # m # replicate n m @ replaceEm m None v" .
    with Some r at show ?thesis by simp
  qed
qed

lemma inline_example:
  "applyInlineFormatting (u16 ''*a* **b** *c*'') = u16 ''<em>a</em> <strong>b</strong> <em>c</em>''"
  by code_simp

lemma lookaround_examples:
  "applyInlineFormatting (u16 ''a**b*'') = u16 ''a**b*'' \<and>
   applyInlineFormatting (u16 ''*a**'') = u16 ''*a**'' \<and>
   applyInlineFormatting (u16 ''**a*'') = u16 ''**a*''"
  by code_simp

lemma inline_after_bold:
  assumes "replaceBold line = u @ chStar # chStar # replicate n chStar @ v"
    and "u = [] \<or> last u \<noteq> chStar" and "v = [] \<or> hd v \<noteq> chStar"
  shows "applyInlineFormatting line =
         replaceEm chUnderscore None
           (replaceEm chStar None u @ chStar # chStar # replicate n chStar @ replaceEm chStar None v)"
  using assms by (simp add: applyInlineFormatting_def replaceEm_marker_run)

lemma run_witness_facts:
  "last (u16 ''*x* a'') \<noteq> chStar \<and> hd (u16 ''b*c*'') \<noteq> chStar \<and>
   u16 ''*x* a'' @ chStar # chStar # replicate 0 chStar @ u16 ''b*c*'' = u16 ''*x* a**b*c*'' \<and>
   replaceEm chStar None (u16 ''*x* a'') = u16 ''<em>x</em> a'' \<and>
   replaceEm chStar None (u16 ''b*c*'') = u16 ''b<em>c</em>'' \<and>
   replaceBold (u16 ''*x* a**b*c*'') = u16 ''*x* a**b*c*'' \<and>
   replaceEm chUnderscore None (u16 ''<em>x</em> a'' @ chStar # chStar # u16 ''b<em>c</em>'') =
     u16 ''<em>x</em> a**b<em>c</em>''"
  by code_simp

text \<open>
  C5, as the code has it. The single-asterisk rule runs on the line as the bold rule
  leaves it. In \<open>***a***\<close> the bold rule takes the first two asterisks and the fifth and
  sixth; the third asterisk, which stands right after \<open>**\<close> in the line, and the last
  one, which stands right after the closing \<open>**\<close>, then fire the single-asterisk rule.
\<close>

theorem C5_triple_asterisks:
  "replaceBold (u16 ''***a***'') = u16 ''<strong>*a</strong>*'' \<and>
   replaceEm chStar None (u16 ''<strong>*a</strong>*'') = u16 ''<strong><em>a</strong></em>'' \<and>
   applyInlineFormatting (u16 ''***a***'') = u16 ''<strong><em>a</strong></em>''"
  by code_simp

text \<open>
  C5, amended. The line \<open>*a* **b** *c*\<close> becomes
  \<open><em>a</em> <strong>b</strong> <em>c</em>\<close>: only \<open>b\<close> is strong, \<open>a\<close> and \<open>c\<close> are
  each emphasised, and no span reaches from one marker group into another. In the text
  the single-asterisk rule is applied to, an asterisk that stands next to another
  asterisk never fires the rule: every run of two or more asterisks stays as it is, and
  the text before it and the text after it are formatted each on its own. This holds in
  particular for every such run that the bold rule leaves in a line. So \<open>a**b*\<close>,
  \<open>*a**\<close> and \<open>**a*\<close> are left unchanged.
\<close>

theorem C5_inline_markers:
  "applyInlineFormatting (u16 ''*a* **b** *c*'') = u16 ''<em>a</em> <strong>b</strong> <em>c</em>'' \<and>
   ((u = [] \<or> last u \<noteq> chStar) \<and> (v = [] \<or> hd v \<noteq> chStar) \<longrightarrow>
      replaceEm chStar prev (u @ chStar # chStar # replicate n chStar @ v) =
        replaceEm chStar prev u @ chStar # chStar # replicate n chStar @ replaceEm chStar None v) \<and>
   (replaceBold line = u @ chStar # chStar # replicate n chStar @ v \<and>
    (u = [] \<or> last u \<noteq> chStar) \<and> (v = [] \<or> hd v \<noteq> chStar) \<longrightarrow>
      applyInlineFormatting line =
        replaceEm chUnderscore None
          (replaceEm chStar None u @ chStar # chStar # replicate n chStar @
           replaceEm chStar None v)) \<and>
   applyInlineFormatting (u16 ''a**b*'') = u16 ''a**b*'' \<and>
   applyInlineFormatting (u16 ''*a**'') = u16 ''*a**'' \<and>
   applyInlineFormatting (u16 ''**a*'') = u16 ''**a*''"
  using inline_example lookaround_examples replaceEm_marker_run [of u chStar v prev n]
    inline_after_bold [of line u n v]
  by blast

theorem C5_inline_markers_witness:
  "last (u16 ''*x* a'') \<noteq> chStar \<and> hd (u16 ''b*c*'') \<noteq> chStar \<and>
   replaceEm chStar None (u16 ''*x* a**b*c*'') =
     u16 ''<em>x</em> a'' @ chStar # chStar # u16 ''b<em>c</em>'' \<and>
   replaceBold (u16 ''*x* a**b*c*'') = u16 ''*x* a**b*c*'' \<and>
   applyInlineFormatting (u16 ''*x* a**b*c*'') = u16 ''<em>x</em> a**b<em>c</em>''"
proof -
  note f = run_witness_facts
  note inst = C5_inline_markers [of "u16 ''*x* a''" "u16 ''b*c*''" None 0 "u16 ''*x* a**b*c*''"]
  from inst f have "replaceEm chStar None (u16 ''*x* a**b*c*'') =
     u16 ''<em>x</em> a'' @ chStar # chStar # u16 ''b<em>c</em>''"
    by simp
  moreover from inst f have
    "applyInlineFormatting (u16 ''*x* a**b*c*'') = u16 ''<em>x</em> a**b<em>c</em>''"
    by simp
  ultimately show ?thesis using f by simp
qed





section \<open>Properties of the Block Formatter\<close>

lemma trim_Nil_iff: "trim s = [] \<longleftrightarrow> (\<forall>c \<in> set s. isSpace c)"
proof -
  have "trim s = [] \<longleftrightarrow> (\<forall>c \<in> set (dropWhile isSpace s). isSpace c)"
    by (simp add: trim_def dropWhile_eq_Nil_conv)
  also have "\<dots> \<longleftrightarrow> dropWhile isSpace s = []"
  proof
    assume a: "\<forall>c \<in> set (dropWhile isSpace s). isSpace c"
    show "dropWhile isSpace s = []"
    proof (rule ccontr)
      assume ne: "dropWhile isSpace s \<noteq> []"
      then have "\<not> isSpace (hd (dropWhile isSpace s))" by (rule hd_dropWhile)
      moreover from ne have "hd (dropWhile isSpace s) \<in> set (dropWhile isSpace s)" by simp
      ultimately show False using a by blast
    qed
  qed (auto dest: set_dropWhileD)
  also have "\<dots> \<longleftrightarrow> (\<forall>c \<in> set s. isSpace c)"
    by (simp add: dropWhile_eq_Nil_conv)
  finally show ?thesis .
qed

lemma isSpace_not_marker:
  "isSpace c \<Longrightarrow> c \<noteq> chStar \<and> c \<noteq> chUnderscore \<and> c \<noteq> chHash \<and> \<not> isBulletChar c"
  by (auto simp: isSpace_def isWhiteSpace_def isLineTerminator_def isBulletChar_def)

lemma quant_None_iff:
  "quant g lo hi cls k s = None \<longleftrightarrow>
   (\<forall>n. lo \<le> n \<and> n \<le> (case hi of None \<Rightarrow> length (takeWhile cls s) | Some h \<Rightarrow> min h (length (takeWhile cls s)))
        \<longrightarrow> k (take n s) (drop n s) = None)"
  by (cases g) (auto simp: quant_def Let_def firstSome_None_iff less_Suc_eq_le simp del: upt_Suc)

lemma blank_inline: 
  assumes "trim e = []" shows "applyInlineFormatting e = e"
proof -
  from assms have "\<forall>c \<in> set e. isSpace c" by (simp add: trim_Nil_iff)
  then have "chStar \<notin> set e" "chUnderscore \<notin> set e"
    using isSpace_not_marker by blast+
  then have "occurrences chStar e \<le> 1" "occurrences chUnderscore e \<le> 1"
    by (simp_all add: occurrences_0_iff [symmetric])
  then show ?thesis by (rule inline_few)
qed

lemma blank_headingMatch:
  assumes "trim e = []" shows "headingMatch e = None"
proof -
  from assms have sp: "\<forall>c \<in> set e. isSpace c" by (simp add: trim_Nil_iff)
  have "takeWhile (\<lambda>c. c = chHash) e = []"
  proof (cases e)
    case (Cons c cs)
    with sp have "isSpace c" by simp
    then have "c \<noteq> chHash" using isSpace_not_marker by blast
    with Cons show ?thesis by simp
  qed simp
  then show ?thesis
    by (simp add: headingMatch_def quant_None_iff)
qed

lemma blank_bulletMatch:
  assumes "trim e = []" shows "bulletMatch e = None"
proof -
  from assms have sp: "\<forall>c \<in> set e. isSpace c" by (simp add: trim_Nil_iff)
  have "\<And>n. (case drop n e of [] \<Rightarrow> None
         | c # r2 \<Rightarrow> if isBulletChar c then
               quant Greedy 1 None isSpace
                 (\<lambda>_ r3. quant Greedy 0 None isDot
                    (\<lambda>g2 r4. if r4 = [] then Some g2 else None) r3) r2
             else None) = None"
  proof -
    fix n
    show "?thesis n"
    proof (cases "drop n e")
      case (Cons c r2)
      then have "c \<in> set e" by (metis in_set_dropD list.set_intros(1))
      with sp have "\<not> isBulletChar c" using isSpace_not_marker by blast
      with Cons show ?thesis by simp
    qed simp
  qed
  then show ?thesis
    by (simp add: bulletMatch_def quant_None_iff)
qed

lemma not_isSpace_chLt: "\<not> isSpace chLt"
  by (simp add: isSpace_def isWhiteSpace_def isLineTerminator_def)

lemma replaceBold_nonblank:
  "\<exists>c \<in> set s. \<not> isSpace c \<Longrightarrow> \<exists>c \<in> set (replaceBold s). \<not> isSpace c"
proof (induction s rule: replaceBold.induct)
  case 1
  then show ?case by simp
next
  case (2 c cs)
  show ?case
  proof (cases "boldAt (c # cs)")
    case None
    show ?thesis
    proof (cases "isSpace c")
      case True
      with "2.prems" have "\<exists>d \<in> set cs. \<not> isSpace d" by auto
      with "2.IH"(1) None have "\<exists>d \<in> set (replaceBold cs). \<not> isSpace d" by blast
      with None show ?thesis by auto
    next
      case False
      with None show ?thesis by auto
    qed
  next
    case (Some r)
    obtain p1 rest where r: "r = (p1, rest)" by (cases r)
    with Some have "chLt \<in> set (replaceBold (c # cs))"
      by (simp add: strong_def u16_def)
    with not_isSpace_chLt show ?thesis by blast
  qed
qed

lemma replaceEm_nonblank:
  "\<exists>c \<in> set s. \<not> isSpace c \<Longrightarrow> \<exists>c \<in> set (replaceEm m prev s). \<not> isSpace c"
proof (induction m prev s rule: replaceEm.induct)
  case (1 m prev)
  then show ?case by simp
next
  case (2 m prev c cs)
  show ?case
  proof (cases "emAt m prev (c # cs)")
    case None
    show ?thesis
    proof (cases "isSpace c")
      case True
      with "2.prems" have "\<exists>d \<in> set cs. \<not> isSpace d" by auto
      with "2.IH"(1) None have "\<exists>d \<in> set (replaceEm m (Some c) cs). \<not> isSpace d" by blast
      with None show ?thesis by auto
    next
      case False
      with None show ?thesis by auto
    qed
  next
    case (Some r)
    obtain p1 rest where r: "r = (p1, rest)" by (cases r)
    with Some have "chLt \<in> set (replaceEm m prev (c # cs))"
      by (simp add: em_def u16_def)
    with not_isSpace_chLt show ?thesis by blast
  qed
qed

lemma inline_nonblank:
  assumes "trim s \<noteq> []" shows "trim (applyInlineFormatting s) \<noteq> []"
proof -
  from assms have "\<exists>c \<in> set s. \<not> isSpace c" by (simp add: trim_Nil_iff)
  then have "\<exists>c \<in> set (applyInlineFormatting s). \<not> isSpace c"
    unfolding applyInlineFormatting_def
    by (intro replaceEm_nonblank replaceBold_nonblank)
  then show ?thesis by (simp add: trim_Nil_iff)
qed

lemma formatLoop_regular:
  assumes "headingMatch cur = None" and "bulletMatch cur = None"
  shows "formatLoop inList (cur # others) =
         (if inList then u16 ''</ul>'' else []) @ applyInlineFormatting cur @
         lineBreak (applyInlineFormatting cur) others @ formatLoop False others"
  using assms by simp

lemma lineBreak_blank:
  assumes "trim line = [] \<or> trim nxt = []"
  shows "lineBreak line (nxt # others) = u16 ''<br>''"
  using assms by (auto simp: lineBreak_def Let_def)

lemma lineBreak_nonblank:
  assumes "trim line \<noteq> []" and "trim nxt \<noteq> []"
  shows "lineBreak line (nxt # others) =
         (if nextIsHeading nxt \<or> nextIsBullet nxt then [] else u16 ''<br>'')"
  using assms by (auto simp: lineBreak_def Let_def)

lemma break_after_blank_transition:
  assumes "headingMatch cur = None" and "bulletMatch cur = None"
    and "trim cur = [] \<or> trim nxt = []"
  shows "formatLoop inList (cur # nxt # others) =
         (if inList then u16 ''</ul>'' else []) @ applyInlineFormatting cur @ u16 ''<br>'' @
         formatLoop False (nxt # others)"
proof -
  have "trim (applyInlineFormatting cur) = [] \<or> trim nxt = []"
    using assms(3) blank_inline [of cur] by auto
  then have "lineBreak (applyInlineFormatting cur) (nxt # others) = u16 ''<br>''"
    by (rule lineBreak_blank)
  with formatLoop_regular [OF assms(1,2), of inList "nxt # others"] show ?thesis by simp
qed

lemma break_between_prose:
  assumes "headingMatch cur = None" and "bulletMatch cur = None"
    and "trim cur \<noteq> []" and "trim nxt \<noteq> []"
  shows "formatLoop inList (cur # nxt # others) =
         (if inList then u16 ''</ul>'' else []) @ applyInlineFormatting cur @
         (if nextIsHeading nxt \<or> nextIsBullet nxt then [] else u16 ''<br>'') @
         formatLoop False (nxt # others)"
proof -
  have "trim (applyInlineFormatting cur) \<noteq> []"
    using assms(3) by (rule inline_nonblank)
  then have "lineBreak (applyInlineFormatting cur) (nxt # others) =
             (if nextIsHeading nxt \<or> nextIsBullet nxt then [] else u16 ''<br>'')"
    using assms(4) by (rule lineBreak_nonblank)
  with formatLoop_regular [OF assms(1,2), of inList "nxt # others"] show ?thesis by simp
qed

lemma breaks_in_blank_run:
  assumes "headingMatch a = None" and "bulletMatch a = None"
    and "trim e1 = []" and "trim e2 = []"
  shows "formatLoop inList (a # e1 # e2 # b # others) =
         (if inList then u16 ''</ul>'' else []) @ applyInlineFormatting a @ u16 ''<br>'' @
         e1 @ u16 ''<br>'' @ e2 @ u16 ''<br>'' @ formatLoop False (b # others)"
proof -
  have 1: "formatLoop inList (a # e1 # e2 # b # others) =
           (if inList then u16 ''</ul>'' else []) @ applyInlineFormatting a @ u16 ''<br>'' @
           formatLoop False (e1 # e2 # b # others)"
    using assms by (intro break_after_blank_transition) simp_all
  have 2: "formatLoop False (e1 # e2 # b # others) =
           e1 @ u16 ''<br>'' @ formatLoop False (e2 # b # others)"
    using break_after_blank_transition [of e1 e2 False "b # others"] assms
    by (simp add: blank_headingMatch blank_bulletMatch blank_inline)
  have 3: "formatLoop False (e2 # b # others) = e2 @ u16 ''<br>'' @ formatLoop False (b # others)"
    using break_after_blank_transition [of e2 b False others] assms
    by (simp add: blank_headingMatch blank_bulletMatch blank_inline)
  show ?thesis by (simp only: 1 2 3)
qed

lemma blank_run_example:
  "formatMessage (u16 ''a'' @ [chLF, chLF, chLF] @ u16 ''b'') = u16 ''a<br><br><br>b''"
  by code_simp

lemma run_le_iff:
  "n \<le> length (takeWhile P xs) \<longleftrightarrow> n \<le> length xs \<and> list_all P (take n xs)"
proof (induction xs arbitrary: n)
  case Nil
  show ?case by simp
next
  case (Cons x xs)
  show ?case by (cases n) (auto simp: Cons.IH)
qed

lemma take_replicate_iff:
  "take n xs = replicate n c \<longleftrightarrow> n \<le> length xs \<and> list_all (\<lambda>x. x = c) (take n xs)"
proof
  assume a: "take n xs = replicate n c"
  then have "length (take n xs) = n" by simp
  then have "n \<le> length xs" by simp
  moreover from a have "list_all (\<lambda>x. x = c) (take n xs)" by (simp add: list_all_iff)
  ultimately show "n \<le> length xs \<and> list_all (\<lambda>x. x = c) (take n xs)" ..
next
  assume "n \<le> length xs \<and> list_all (\<lambda>x. x = c) (take n xs)"
  then have "length (take n xs) = n" "\<forall>x \<in> set (take n xs). x = c"
    by (simp_all add: list_all_iff)
  then show "take n xs = replicate n c"
    by (metis replicate_eqI)
qed

lemma most_le_iff:
  "n \<le> (case hi of None \<Rightarrow> length (takeWhile cls s)
         | Some h \<Rightarrow> min h (length (takeWhile cls s))) \<longleftrightarrow>
   (case hi of None \<Rightarrow> True | Some h \<Rightarrow> n \<le> h) \<and> n \<le> length s \<and> list_all cls (take n s)"
  by (cases hi) (simp_all add: run_le_iff)

lemma quant_Some_iff1:
  "quant g lo hi cls k s \<noteq> None \<longleftrightarrow>
   (\<exists>n. lo \<le> n \<and>
        n \<le> (case hi of None \<Rightarrow> length (takeWhile cls s)
           | Some h \<Rightarrow> min h (length (takeWhile cls s))) \<and> k (take n s) (drop n s) \<noteq> None)"
  apply (subst quant_None_iff)
  apply (rule iffI)
   apply (erule contrapos_np)
   apply (intro allI impI)
   apply (rule ccontr)
   apply (erule notE)
   apply (rule_tac x = n in exI)
   apply (elim conjE)
   apply (intro conjI)
     apply assumption+
  apply (erule exE)
  apply (elim conjE)
  apply (rule notI)
  apply (drule_tac x = n in spec)
  apply (drule mp)
   apply (intro conjI)
    apply assumption+
  apply (erule notE)
  apply assumption
  done

lemma quant_Some_iff:
  "quant g lo hi cls k s \<noteq> None \<longleftrightarrow>
   (\<exists>n. lo \<le> n \<and> (case hi of None \<Rightarrow> True | Some h \<Rightarrow> n \<le> h) \<and>
        n \<le> length s \<and> list_all cls (take n s) \<and> k (take n s) (drop n s) \<noteq> None)"
  by (simp only: quant_Some_iff1 most_le_iff conj_assoc)

lemma dot_tail_iff:
  "quant Greedy lo None isDot (\<lambda>g2 r. if r = [] then Some (f g2) else None) t \<noteq> None \<longleftrightarrow>
   lo \<le> length t \<and> list_all isDot t"
  (is "?l \<longleftrightarrow> ?r")
proof
  assume ?l
  then have "\<exists>n. lo \<le> n \<and> (case None :: nat option of None \<Rightarrow> True | Some h \<Rightarrow> n \<le> h) \<and>
        n \<le> length t \<and> list_all isDot (take n t) \<and>
        (if drop n t = [] then Some (f (take n t)) else None) \<noteq> None"
    by (simp only: quant_Some_iff)
  then obtain n where n: "lo \<le> n" "n \<le> length t" "list_all isDot (take n t)"
    "(if drop n t = [] then Some (f (take n t)) else None) \<noteq> None"
    by (elim exE conjE)
  from n(4) have "drop n t = []" by (simp split: if_splits)
  with n(2) have "n = length t" by simp
  with n show ?r by simp
next
  assume r: ?r
  have "\<exists>n. lo \<le> n \<and> (case None :: nat option of None \<Rightarrow> True | Some h \<Rightarrow> n \<le> h) \<and>
        n \<le> length t \<and> list_all isDot (take n t) \<and>
        (if drop n t = [] then Some (f (take n t)) else None) \<noteq> None"
    using r by (intro exI [of _ "length t"]) simp
  then show ?l by (simp only: quant_Some_iff)
qed

lemma space_head_iff:
  "quant Greedy 1 None isSpace (\<lambda>_ _. Some ()) t \<noteq> None \<longleftrightarrow>
   (case t of [] \<Rightarrow> False | c # _ \<Rightarrow> isSpace c)"
proof -
  have "quant Greedy 1 None isSpace (\<lambda>_ _. Some ()) t \<noteq> None \<longleftrightarrow>
        (\<exists>n. 1 \<le> n \<and> n \<le> length t \<and> list_all isSpace (take n t))"
    by (simp only: quant_Some_iff) simp
  also have "\<dots> \<longleftrightarrow> (case t of [] \<Rightarrow> False | c # _ \<Rightarrow> isSpace c)"
  proof (cases t)
    case Nil
    then show ?thesis by simp
  next
    case (Cons c cs)
    show ?thesis
    proof
      assume "\<exists>n. 1 \<le> n \<and> n \<le> length t \<and> list_all isSpace (take n t)"
      then obtain n where "1 \<le> n" "list_all isSpace (take n t)" by blast
      then show "case t of [] \<Rightarrow> False | c # _ \<Rightarrow> isSpace c"
        using Cons by (cases n) simp_all
    next
      assume "case t of [] \<Rightarrow> False | c # _ \<Rightarrow> isSpace c"
      then show "\<exists>n. 1 \<le> n \<and> n \<le> length t \<and> list_all isSpace (take n t)"
        using Cons by (intro exI [of _ 1]) simp
    qed
  qed
  finally show ?thesis .
qed

lemma headingStart_iff:
  "headingStart l \<longleftrightarrow>
   (\<exists>k. 1 \<le> k \<and> k \<le> 6 \<and> k \<le> length l \<and> list_all (\<lambda>c. c = chHash) (take k l) \<and>
        (case drop k l of [] \<Rightarrow> False | c # _ \<Rightarrow> isSpace c))"
proof -
  have "headingStart l \<longleftrightarrow>
        (\<exists>k. 1 \<le> k \<and> k < 7 \<and> take k l = replicate k chHash \<and>
             (case drop k l of [] \<Rightarrow> False | c # _ \<Rightarrow> isSpace c))"
    unfolding headingStart_def list_ex_iff by (simp add: Bex_def conj_assoc)
  also have "\<dots> \<longleftrightarrow>
        (\<exists>k. 1 \<le> k \<and> k \<le> 6 \<and> k \<le> length l \<and> list_all (\<lambda>c. c = chHash) (take k l) \<and>
             (case drop k l of [] \<Rightarrow> False | c # _ \<Rightarrow> isSpace c))"
    by (simp only: take_replicate_iff conj_assoc) (simp add: less_Suc_eq_le [symmetric])
  finally show ?thesis .
qed

lemma nextIsHeading_iff: "nextIsHeading l \<longleftrightarrow> headingStart l"
proof -
  have "nextIsHeading l \<longleftrightarrow>
        (\<exists>k. 1 \<le> k \<and> k \<le> 6 \<and> k \<le> length l \<and> list_all (\<lambda>c. c = chHash) (take k l) \<and>
             (case drop k l of [] \<Rightarrow> False | c # _ \<Rightarrow> isSpace c))"
    unfolding nextIsHeading_def
    by (subst quant_Some_iff) (simp only: space_head_iff option.case)
  then show ?thesis by (simp only: headingStart_iff)
qed

lemma space_then_dots_iff:
  "quant Greedy 1 None isSpace
     (\<lambda>_ r3. quant Greedy lo None isDot (\<lambda>g2 r4. if r4 = [] then Some (f g2) else None) r3) r2
   \<noteq> None \<longleftrightarrow>
   (\<exists>j. 1 \<le> j \<and> j \<le> length r2 \<and> list_all isSpace (take j r2) \<and>
        lo \<le> length (drop j r2) \<and> list_all isDot (drop j r2))"
  by (subst quant_Some_iff) (simp only: dot_tail_iff option.case simp_thms)

lemma bullet_start_cont_iff:
  "(case r1 of
      [] \<Rightarrow> None
    | c # r2 \<Rightarrow> if isBulletChar c then quant Greedy 1 None isSpace (\<lambda>_ _. Some ()) r2 else None)
   \<noteq> None \<longleftrightarrow>
   (case r1 of [] \<Rightarrow> False
    | c # r2 \<Rightarrow> isBulletChar c \<and> (case r2 of [] \<Rightarrow> False | d # _ \<Rightarrow> isSpace d))"
proof (cases r1)
  case Nil
  then show ?thesis by simp
next
  case (Cons c r2)
  show ?thesis
  proof (cases "isBulletChar c")
    case True
    with Cons show ?thesis by (simp only: list.case if_True space_head_iff simp_thms)
  next
    case False
    with Cons show ?thesis by simp
  qed
qed

lemma bullet_line_cont_iff:
  "(case r1 of
      [] \<Rightarrow> None
    | c # r2 \<Rightarrow>
        if isBulletChar c then
          quant Greedy 1 None isSpace
            (\<lambda>_ r3. quant Greedy 0 None isDot
               (\<lambda>g2 r4. if r4 = [] then Some g2 else None) r3) r2
        else None)
   \<noteq> None \<longleftrightarrow>
   (case r1 of [] \<Rightarrow> False
    | c # r2 \<Rightarrow> isBulletChar c \<and>
        (\<exists>j. 1 \<le> j \<and> j \<le> length r2 \<and> list_all isSpace (take j r2) \<and>
             list_all isDot (drop j r2)))"
proof (cases r1)
  case Nil
  then show ?thesis by simp
next
  case (Cons c r2)
  have s: "quant Greedy 1 None isSpace
            (\<lambda>_ r3. quant Greedy 0 None isDot
               (\<lambda>g2 r4. if r4 = [] then Some g2 else None) r3) r2 \<noteq> None \<longleftrightarrow>
           (\<exists>j. 1 \<le> j \<and> j \<le> length r2 \<and> list_all isSpace (take j r2) \<and>
                list_all isDot (drop j r2))"
    using space_then_dots_iff [of 0 "\<lambda>x. x" r2] by simp
  show ?thesis
  proof (cases "isBulletChar c")
    case True
    with Cons show ?thesis by (simp only: list.case if_True s simp_thms)
  next
    case False
    with Cons show ?thesis by simp
  qed
qed

lemma two_heads_shape:
  "(case xs of [] \<Rightarrow> False
    | c # r2 \<Rightarrow> Q c \<and> (case r2 of [] \<Rightarrow> False | d # _ \<Rightarrow> R d)) \<longleftrightarrow>
   (case xs of c # d # _ \<Rightarrow> Q c \<and> R d | _ \<Rightarrow> False)"
  by (simp split: list.splits)

lemma nextIsBullet_iff: "nextIsBullet l \<longleftrightarrow> bulletStart l"
proof -
  have "nextIsBullet l \<longleftrightarrow>
        (\<exists>i. i \<le> length l \<and> list_all isSpace (take i l) \<and>
           (case drop i l of [] \<Rightarrow> False
            | c # r2 \<Rightarrow> isBulletChar c \<and> (case r2 of [] \<Rightarrow> False | d # _ \<Rightarrow> isSpace d)))"
    unfolding nextIsBullet_def
    by (subst quant_Some_iff) (simp only: bullet_start_cont_iff option.case simp_thms le0)
  also have "\<dots> \<longleftrightarrow> bulletStart l"
  proof
    assume "\<exists>i. i \<le> length l \<and> list_all isSpace (take i l) \<and>
           (case drop i l of [] \<Rightarrow> False
            | c # r2 \<Rightarrow> isBulletChar c \<and> (case r2 of [] \<Rightarrow> False | d # _ \<Rightarrow> isSpace d))"
    then obtain i where i: "i \<le> length l" "list_all isSpace (take i l)"
      "case drop i l of [] \<Rightarrow> False
       | c # r2 \<Rightarrow> isBulletChar c \<and> (case r2 of [] \<Rightarrow> False | d # _ \<Rightarrow> isSpace d)"
      by (elim exE conjE)
    from i(3) have "drop i l \<noteq> []" by (cases "drop i l") simp_all
    then have "i < length l" by simp
    moreover from i(3) have "case drop i l of c # d # _ \<Rightarrow> isBulletChar c \<and> isSpace d | _ \<Rightarrow> False"
      by (simp only: two_heads_shape)
    ultimately show "bulletStart l"
      using i(2) unfolding bulletStart_def list_ex_iff by (intro bexI [of _ i]) simp_all
  next
    assume "bulletStart l"
    then obtain i where i: "i < length l" "list_all isSpace (take i l)"
      "case drop i l of c # d # _ \<Rightarrow> isBulletChar c \<and> isSpace d | _ \<Rightarrow> False"
      unfolding bulletStart_def list_ex_iff by auto
    from i(3) have "case drop i l of [] \<Rightarrow> False
       | c # r2 \<Rightarrow> isBulletChar c \<and> (case r2 of [] \<Rightarrow> False | d # _ \<Rightarrow> isSpace d)"
      by (simp only: two_heads_shape)
    with i(1,2) show "\<exists>i. i \<le> length l \<and> list_all isSpace (take i l) \<and>
           (case drop i l of [] \<Rightarrow> False
            | c # r2 \<Rightarrow> isBulletChar c \<and> (case r2 of [] \<Rightarrow> False | d # _ \<Rightarrow> isSpace d))"
      by (intro exI [of _ i]) simp
  qed
  finally show ?thesis .
qed

lemma headingMatch_Some_iff:
  "headingMatch l \<noteq> None \<longleftrightarrow>
   (\<exists>k. 1 \<le> k \<and> k \<le> 6 \<and> k \<le> length l \<and> list_all (\<lambda>c. c = chHash) (take k l) \<and>
      (\<exists>j. 1 \<le> j \<and> j \<le> length (drop k l) \<and> list_all isSpace (take j (drop k l)) \<and>
           1 \<le> length (drop j (drop k l)) \<and> list_all isDot (drop j (drop k l))))"
  unfolding headingMatch_def
  by (subst quant_Some_iff) (simp only: space_then_dots_iff option.case simp_thms)

lemma headingMatch_iff: "headingMatch l \<noteq> None \<longleftrightarrow> headingLine l"
proof
  assume "headingMatch l \<noteq> None"
  then obtain k j where k: "1 \<le> k" "k \<le> 6" "k \<le> length l" "list_all (\<lambda>c. c = chHash) (take k l)"
    and j: "1 \<le> j" "j \<le> length (drop k l)" "list_all isSpace (take j (drop k l))"
      "1 \<le> length (drop j (drop k l))" "list_all isDot (drop j (drop k l))"
    unfolding headingMatch_Some_iff by (elim exE conjE)
  from k(3,4) have t: "take k l = replicate k chHash" by (simp only: take_replicate_iff)
  from j(4) have ne: "drop j (drop k l) \<noteq> []" by (cases "drop j (drop k l)") simp_all
  from j(2) have "j < Suc (length l)" by simp
  with j(1) have jin: "j \<in> set [1 ..< Suc (length l)]" by (simp del: upt_Suc)
  from k(1,2) have kin: "k \<in> set [1 ..< 7]" by simp
  show "headingLine l"
    unfolding headingLine_def list_ex_iff
    using t j(2,3,5) ne jin by (intro bexI [OF _ kin] conjI bexI [OF _ jin])
next
  assume "headingLine l"
  then obtain k j where kin: "k \<in> set [1 ..< 7]" and t: "take k l = replicate k chHash"
    and jin: "j \<in> set [1 ..< Suc (length l)]"
    and j: "j \<le> length (drop k l)" "list_all isSpace (take j (drop k l))"
      "drop j (drop k l) \<noteq> []" "list_all isDot (drop j (drop k l))"
    unfolding headingLine_def list_ex_iff by (elim bexE conjE)
  from t have "k \<le> length l \<and> list_all (\<lambda>c. c = chHash) (take k l)"
    by (simp only: take_replicate_iff)
  moreover from kin have "1 \<le> k" "k \<le> 6" by simp_all
  moreover from jin have "1 \<le> j" by (simp del: upt_Suc)
  moreover from j(3) have "1 \<le> length (drop j (drop k l))"
    by (cases "drop j (drop k l)") simp_all
  ultimately show "headingMatch l \<noteq> None"
    unfolding headingMatch_Some_iff using j(1,2,4)
    by (intro exI [of _ k] exI [of _ j] conjI) simp_all
qed

lemma bulletMatch_Some_iff:
  "bulletMatch l \<noteq> None \<longleftrightarrow>
   (\<exists>i. i \<le> length l \<and> list_all isSpace (take i l) \<and>
      (case drop i l of [] \<Rightarrow> False
       | c # r2 \<Rightarrow> isBulletChar c \<and>
           (\<exists>j. 1 \<le> j \<and> j \<le> length r2 \<and> list_all isSpace (take j r2) \<and>
                list_all isDot (drop j r2))))"
  unfolding bulletMatch_def
  by (subst quant_Some_iff) (simp only: bullet_line_cont_iff option.case simp_thms le0)

lemma bulletMatch_iff: "bulletMatch l \<noteq> None \<longleftrightarrow> bulletLine l"
proof
  assume "bulletMatch l \<noteq> None"
  then obtain i where i: "i \<le> length l" "list_all isSpace (take i l)"
    and c: "case drop i l of [] \<Rightarrow> False
       | c # r2 \<Rightarrow> isBulletChar c \<and>
           (\<exists>j. 1 \<le> j \<and> j \<le> length r2 \<and> list_all isSpace (take j r2) \<and>
                list_all isDot (drop j r2))"
    unfolding bulletMatch_Some_iff by (elim exE conjE)
  from c obtain ch r2 where d: "drop i l = ch # r2" by (cases "drop i l") simp_all
  with c obtain j where b: "isBulletChar ch" and j: "1 \<le> j" "j \<le> length r2"
    "list_all isSpace (take j r2)" "list_all isDot (drop j r2)"
    by auto
  from d have "drop i l \<noteq> []" by simp
  then have "i < length l" by simp
  then have iin: "i \<in> set [0 ..< length l]" by simp
  from d have "length r2 < length l"
    by (metis length_drop diff_le_self impossible_Cons leI le_trans)
  with j(1,2) have jin: "j \<in> set [1 ..< Suc (length l)]" by (simp del: upt_Suc)
  have "list_ex (\<lambda>j. j \<le> length r2 \<and> list_all isSpace (take j r2) \<and>
                     list_all isDot (drop j r2)) [1 ..< Suc (length l)]"
    unfolding list_ex_iff using j(2,3,4) by (intro bexI [OF _ jin] conjI)
  with b d have "case drop i l of [] \<Rightarrow> False
         | c # r \<Rightarrow> isBulletChar c \<and>
             list_ex (\<lambda>j. j \<le> length r \<and> list_all isSpace (take j r) \<and>
                          list_all isDot (drop j r)) [1 ..< Suc (length l)]"
    by simp
  with i(2) show "bulletLine l"
    unfolding bulletLine_def list_ex_iff [of _ "[0 ..< length l]"]
    by (intro bexI [OF _ iin] conjI)
next
  assume "bulletLine l"
  then obtain i where iin: "i \<in> set [0 ..< length l]" and sp: "list_all isSpace (take i l)"
    and c: "case drop i l of [] \<Rightarrow> False
         | c # r \<Rightarrow> isBulletChar c \<and>
             list_ex (\<lambda>j. j \<le> length r \<and> list_all isSpace (take j r) \<and>
                          list_all isDot (drop j r)) [1 ..< Suc (length l)]"
    unfolding bulletLine_def list_ex_iff [of _ "[0 ..< length l]"] by (elim bexE conjE)
  from c obtain ch r2 where d: "drop i l = ch # r2" by (cases "drop i l") simp_all
  with c have b: "isBulletChar ch"
    and "list_ex (\<lambda>j. j \<le> length r2 \<and> list_all isSpace (take j r2) \<and>
                     list_all isDot (drop j r2)) [1 ..< Suc (length l)]"
    by simp_all
  then obtain j where "j \<in> set [1 ..< Suc (length l)]" "j \<le> length r2"
    "list_all isSpace (take j r2)" "list_all isDot (drop j r2)"
    unfolding list_ex_iff by (elim bexE conjE)
  then have "\<exists>j. 1 \<le> j \<and> j \<le> length r2 \<and> list_all isSpace (take j r2) \<and>
                list_all isDot (drop j r2)"
    by (intro exI [of _ j]) (simp del: upt_Suc)
  with b d have "case drop i l of [] \<Rightarrow> False
       | c # r2 \<Rightarrow> isBulletChar c \<and>
           (\<exists>j. 1 \<le> j \<and> j \<le> length r2 \<and> list_all isSpace (take j r2) \<and>
                list_all isDot (drop j r2))"
    by simp
  moreover from iin have "i \<le> length l" by simp
  ultimately show "bulletMatch l \<noteq> None"
    unfolding bulletMatch_Some_iff using sp by (intro exI [of _ i] conjI)
qed

lemma proseLine_iff: "proseLine l \<longleftrightarrow> headingMatch l = None \<and> bulletMatch l = None"
  unfolding proseLine_def headingMatch_iff [symmetric] bulletMatch_iff [symmetric]
  by (simp only: not_not)

lemma blankLine_iff: "blankLine l \<longleftrightarrow> trim l = []"
  by (simp add: blankLine_def trim_Nil_iff list_all_iff)

lemma formatLoop_step: "\<exists>piece il'. formatLoop il (l # ls) = piece @ formatLoop il' ls"
proof (cases "headingMatch l")
  case (Some r)
  obtain level htext where "r = (level, htext)" by (cases r)
  with Some show ?thesis by (simp del: append_assoc) (metis append_assoc)
next
  case None
  show ?thesis
  proof (cases "bulletMatch l")
    case (Some item)
    with None show ?thesis by (simp del: append_assoc) (metis append_assoc)
  next
    case None2: None
    with None show ?thesis by (simp del: append_assoc) (metis append_assoc)
  qed
qed

lemma formatLoop_prefix:
  "\<exists>before il'. (pre = [] \<longrightarrow> before = [] \<and> il' = il) \<and>
     formatLoop il (pre @ rest) = before @ formatLoop il' rest"
proof (induction pre arbitrary: il)
  case Nil
  show ?case by (intro exI [of _ "[]"] exI [of _ il]) simp
next
  case (Cons l pre)
  from formatLoop_step [of il l "pre @ rest"] obtain piece il1
    where 1: "formatLoop il (l # pre @ rest) = piece @ formatLoop il1 (pre @ rest)" by blast
  from Cons [of il1] obtain before il2
    where 2: "formatLoop il1 (pre @ rest) = before @ formatLoop il2 rest" by blast
  from 1 2 have "formatLoop il ((l # pre) @ rest) = (piece @ before) @ formatLoop il2 rest"
    by simp
  then show ?case by blast
qed

lemma splitLines_not_Nil: "splitLines s \<noteq> []"
  by (induction s rule: splitLines.induct) (auto split: list.splits)

lemma splitLines_other:
  assumes "c \<noteq> chLF" and "c \<noteq> chCR \<or> s = [] \<or> hd s \<noteq> chLF"
  shows "splitLines (c # s) = (c # hd (splitLines s)) # tl (splitLines s)"
proof -
  obtain l ls where "splitLines s = l # ls"
    using splitLines_not_Nil [of s] by (cases "splitLines s") auto
  with assms show ?thesis by auto
qed

lemma splitLines_prepend:
  "chLF \<notin> set w \<Longrightarrow> w = [] \<or> last w \<noteq> chCR \<or> s = [] \<or> hd s \<noteq> chLF \<Longrightarrow>
   splitLines (w @ s) = (w @ hd (splitLines s)) # tl (splitLines s)"
proof (induction w)
  case Nil
  show ?case using splitLines_not_Nil [of s] by simp
next
  case (Cons c w)
  from Cons.prems(1) have c: "c \<noteq> chLF" and w: "chLF \<notin> set w" by auto
  have next_ok: "c \<noteq> chCR \<or> w @ s = [] \<or> hd (w @ s) \<noteq> chLF"
  proof (cases w)
    case Nil
    with Cons.prems(2) show ?thesis by auto
  next
    case (Cons d w')
    with w show ?thesis by auto
  qed
  have "w = [] \<or> last w \<noteq> chCR \<or> s = [] \<or> hd s \<noteq> chLF"
    using Cons.prems(2) by (cases w) auto
  with Cons.IH [OF w] have "splitLines (w @ s) = (w @ hd (splitLines s)) # tl (splitLines s)" .
  with splitLines_other [OF c next_ok] show ?case by simp
qed

lemma escapeChar_no_LF: "c \<noteq> chLF \<Longrightarrow> chLF \<notin> set (escapeChar c)"
  by (simp add: escapeChar_def u16_def)

lemma escapeChar_last_CR: "last (escapeChar c) = chCR \<Longrightarrow> c = chCR"
  by (simp add: escapeChar_def u16_def split: if_splits)

lemma escapeChar_not_Nil: "escapeChar c \<noteq> []"
  by (simp add: escapeChar_def u16_def)

lemma escapeHtml_starts_LF:
  "escapeHtml s \<noteq> [] \<and> hd (escapeHtml s) = chLF \<longleftrightarrow> s \<noteq> [] \<and> hd s = chLF"
proof (cases s)
  case Nil
  then show ?thesis by (simp add: escapeHtml_Nil)
next
  case (Cons c cs)
  have "hd (escapeChar c) = chLF \<longleftrightarrow> c = chLF"
    by (simp add: escapeChar_def u16_def)
  with Cons escapeChar_not_Nil [of c] show ?thesis
    by (simp add: escapeHtml_Cons)
qed

lemma splitLines_escapeHtml: "splitLines (escapeHtml t) = map escapeHtml (splitLines t)"
proof (induction t rule: splitLines.induct)
  case 1
  show ?case by (simp add: escapeHtml_Nil)
next
  case (2 c cs)
  show ?case
  proof (cases "c = chCR \<and> cs \<noteq> [] \<and> hd cs = chLF")
    case True
    then obtain cs' where cs: "cs = chLF # cs'" by (cases cs) auto
    with True "2.IH"(1) have "splitLines (escapeHtml cs') = map escapeHtml (splitLines cs')"
      by simp
    with True cs show ?thesis
      by (simp add: escapeHtml_Cons escapeChar_def escapeHtml_Nil)
  next
    case notcrlf: False
    show ?thesis
    proof (cases "c = chLF")
      case True
      with notcrlf "2.IH"(2) have "splitLines (escapeHtml cs) = map escapeHtml (splitLines cs)"
        by simp
      with True show ?thesis
        by (simp add: escapeHtml_Cons escapeChar_def escapeHtml_Nil)
    next
      case False
      with notcrlf "2.IH"(3) have ih: "splitLines (escapeHtml cs) = map escapeHtml (splitLines cs)"
        by simp
      have "last (escapeChar c) \<noteq> chCR \<or> escapeHtml cs = [] \<or> hd (escapeHtml cs) \<noteq> chLF"
        using notcrlf escapeChar_last_CR [of c] escapeHtml_starts_LF [of cs] by blast
      then have "splitLines (escapeChar c @ escapeHtml cs) =
            (escapeChar c @ hd (splitLines (escapeHtml cs))) # tl (splitLines (escapeHtml cs))"
        using escapeChar_no_LF [OF False] by (intro splitLines_prepend) auto
      moreover have "splitLines (c # cs) = (c # hd (splitLines cs)) # tl (splitLines cs)"
        using False notcrlf by (intro splitLines_other) auto
      ultimately show ?thesis
        using splitLines_not_Nil [of cs]
        by (simp add: escapeHtml_Cons ih hd_map map_tl)
    qed
  qed
qed

lemma escapeHtml_plain:
  "chLt \<notin> set s \<Longrightarrow> chGt \<notin> set s \<Longrightarrow> chAmp \<notin> set s \<Longrightarrow> chNbsp \<notin> set s \<Longrightarrow> escapeHtml s = s"
  by (induction s) (auto simp: escapeHtml_Nil escapeHtml_Cons escapeChar_def)

lemma isSpace_not_structural: "isSpace c \<Longrightarrow> c \<noteq> chLt \<and> c \<noteq> chGt \<and> c \<noteq> chAmp"
  by (auto simp: isSpace_def isWhiteSpace_def isLineTerminator_def)

lemma escapeHtml_blank:
  assumes "blankLine e" and "chNbsp \<notin> set e"
  shows "escapeHtml e = e"
proof -
  from assms(1) have "\<forall>c \<in> set e. isSpace c" by (simp add: blankLine_def list_all_iff)
  then have "chLt \<notin> set e" "chGt \<notin> set e" "chAmp \<notin> set e"
    using isSpace_not_structural by blast+
  with assms(2) show ?thesis by (intro escapeHtml_plain)
qed

lemma escapeChar_nonspace: "\<not> isSpace c \<Longrightarrow> \<exists>d \<in> set (escapeChar c). \<not> isSpace d"
  by (auto simp: escapeChar_def u16_def isSpace_def isWhiteSpace_def isLineTerminator_def)

lemma escapeHtml_nonblank:
  assumes "\<not> blankLine l"
  shows "\<not> blankLine (escapeHtml l)"
proof -
  from assms obtain c where c: "c \<in> set l" "\<not> isSpace c"
    by (auto simp: blankLine_def list_all_iff)
  from escapeChar_nonspace [OF c(2)] obtain d where "d \<in> set (escapeChar c)" "\<not> isSpace d"
    by blast
  with c(1) have "\<exists>d \<in> set (escapeHtml l). \<not> isSpace d"
    by (auto simp: escapeHtml_concat_map)
  then show ?thesis by (auto simp: blankLine_def list_all_iff)
qed

lemma formatMessage_lines:
  assumes "splitLines text = pre @ a # b # post"
  shows "formatMessage text = formatLoop False (map escapeHtml (pre @ a # b # post))"
proof -
  have "text \<noteq> []" using assms by (cases "text") simp_all
  then show ?thesis
    using assms by (simp add: formatMessage_def splitLines_escapeHtml)
qed

lemma message_blank_run:
  assumes lines: "splitLines text = pre @ a # e1 # e2 # b # post"
    and prose: "proseLine (escapeHtml a)"
    and e1: "blankLine e1" "chNbsp \<notin> set e1" and e2: "blankLine e2" "chNbsp \<notin> set e2"
  shows "\<exists>before. (pre = [] \<longrightarrow> before = []) \<and> formatMessage text =
           before @ applyInlineFormatting (escapeHtml a) @ u16 ''<br>'' @ e1 @ u16 ''<br>'' @
           e2 @ u16 ''<br>'' @ formatLoop False (map escapeHtml (b # post))"
proof -
  have esc: "escapeHtml e1 = e1" "escapeHtml e2 = e2"
    using e1 e2 by (simp_all add: escapeHtml_blank)
  have "formatMessage text =
        formatLoop False (map escapeHtml pre @
          escapeHtml a # e1 # e2 # escapeHtml b # map escapeHtml post)"
    using formatMessage_lines [OF lines] by (simp add: esc)
  moreover obtain before il where
    "map escapeHtml pre = [] \<longrightarrow> before = [] \<and> il = False"
    "formatLoop False (map escapeHtml pre @
        escapeHtml a # e1 # e2 # escapeHtml b # map escapeHtml post) =
     before @ formatLoop il (escapeHtml a # e1 # e2 # escapeHtml b # map escapeHtml post)"
    using formatLoop_prefix [of "map escapeHtml pre" False] by blast
  moreover have "formatLoop il (escapeHtml a # e1 # e2 # escapeHtml b # map escapeHtml post) =
        (if il then u16 ''</ul>'' else []) @ applyInlineFormatting (escapeHtml a) @ u16 ''<br>'' @
        e1 @ u16 ''<br>'' @ e2 @ u16 ''<br>'' @
        formatLoop False (escapeHtml b # map escapeHtml post)"
    using prose e1(1) e2(1)
    by (intro breaks_in_blank_run) (simp_all add: proseLine_iff blankLine_iff)
  ultimately have "(pre = [] \<longrightarrow> before @ (if il then u16 ''</ul>'' else []) = []) \<and>
      formatMessage text =
      (before @ (if il then u16 ''</ul>'' else [])) @ applyInlineFormatting (escapeHtml a) @
      u16 ''<br>'' @ e1 @ u16 ''<br>'' @ e2 @ u16 ''<br>'' @
      formatLoop False (map escapeHtml (b # post))"
    by simp
  then show ?thesis by blast
qed

lemma message_prose_pair:
  assumes lines: "splitLines text = pre @ a # b # post"
    and prose: "proseLine (escapeHtml a)"
    and nb: "\<not> blankLine a" "\<not> blankLine b"
  shows "\<exists>before. (pre = [] \<longrightarrow> before = []) \<and> formatMessage text =
           before @ applyInlineFormatting (escapeHtml a) @
           (if headingStart (escapeHtml b) \<or> bulletStart (escapeHtml b) then [] else u16 ''<br>'') @
           formatLoop False (map escapeHtml (b # post))"
proof -
  have "formatMessage text =
        formatLoop False (map escapeHtml pre @ escapeHtml a # escapeHtml b # map escapeHtml post)"
    using formatMessage_lines [OF lines] by simp
  moreover obtain before il where
    "map escapeHtml pre = [] \<longrightarrow> before = [] \<and> il = False"
    "formatLoop False (map escapeHtml pre @ escapeHtml a # escapeHtml b # map escapeHtml post) =
     before @ formatLoop il (escapeHtml a # escapeHtml b # map escapeHtml post)"
    using formatLoop_prefix [of "map escapeHtml pre" False] by blast
  moreover have "formatLoop il (escapeHtml a # escapeHtml b # map escapeHtml post) =
        (if il then u16 ''</ul>'' else []) @ applyInlineFormatting (escapeHtml a) @
        (if nextIsHeading (escapeHtml b) \<or> nextIsBullet (escapeHtml b) then [] else u16 ''<br>'') @
        formatLoop False (escapeHtml b # map escapeHtml post)"
    using prose escapeHtml_nonblank [OF nb(1)] escapeHtml_nonblank [OF nb(2)]
    by (intro break_between_prose) (simp_all add: proseLine_iff blankLine_iff)
  ultimately have "(pre = [] \<longrightarrow> before @ (if il then u16 ''</ul>'' else []) = []) \<and>
      formatMessage text =
      (before @ (if il then u16 ''</ul>'' else [])) @ applyInlineFormatting (escapeHtml a) @
      (if headingStart (escapeHtml b) \<or> bulletStart (escapeHtml b) then [] else u16 ''<br>'') @
      formatLoop False (map escapeHtml (b # post))"
    by (simp add: nextIsHeading_iff nextIsBullet_iff)
  then show ?thesis by blast
qed

lemma witness_lines:
  "splitLines (u16 ''x'' @ [chLF] @ u16 ''a'' @ [chLF] @ u16 '' '' @ [chLF, 0x09, chLF] @ u16 ''- y'') =
     [u16 ''x''] @ u16 ''a'' # u16 '' '' # [0x09] # u16 ''- y'' # [] \<and>
   escapeHtml (u16 ''a'') = u16 ''a'' \<and> proseLine (u16 ''a'') \<and>
   blankLine (u16 '' '') \<and> chNbsp \<notin> set (u16 '' '') \<and> blankLine [0x09] \<and> chNbsp \<notin> set [0x09] \<and>
   applyInlineFormatting (u16 ''a'') = u16 ''a'' \<and>
   formatLoop False (map escapeHtml [u16 ''- y'']) = u16 ''<ul><li>y</li></ul>'' \<and>
   formatLoop False (map escapeHtml [u16 ''# T'']) = u16 ''<h1>T</h1>'' \<and>
   formatLoop False (map escapeHtml [u16 ''b'']) = u16 ''b'' \<and>
   splitLines (u16 ''a'' @ [chLF] @ u16 ''- y'') = [] @ u16 ''a'' # u16 ''- y'' # [] \<and>
   splitLines (u16 ''a'' @ [chLF] @ u16 ''# T'') = [] @ u16 ''a'' # u16 ''# T'' # [] \<and>
   splitLines (u16 ''a'' @ [chLF] @ u16 ''b'') = [] @ u16 ''a'' # u16 ''b'' # [] \<and>
   \<not> blankLine (u16 ''a'') \<and> \<not> blankLine (u16 ''- y'') \<and> \<not> blankLine (u16 ''# T'') \<and>
   \<not> blankLine (u16 ''b'') \<and>
   bulletStart (escapeHtml (u16 ''- y'')) \<and> headingStart (escapeHtml (u16 ''# T'')) \<and>
   \<not> headingStart (escapeHtml (u16 ''b'')) \<and> \<not> bulletStart (escapeHtml (u16 ''b''))"
  by code_simp

text \<open>
  C6, as the code has it. The lines are told apart after escaping, and the Escaper turns
  U+00A0 into \<open>&nbsp;\<close>. In the text with the lines \<open>a\<close>, U+00A0, U+00A0, \<open># \<close> the
  second and third line have white space only and stand between two prose lines that are
  not blank, yet the output has two \<open><br>\<close> for the three transitions: the third line is
  not blank for the formatter, and \<open># \<close> starts a heading.
\<close>

theorem C6_nbsp_lines:
  "formatMessage (u16 ''a'' @ [chLF, chNbsp, chLF, chNbsp, chLF] @ u16 ''# '') =
     u16 ''a<br>&nbsp;<br>&nbsp;# '' \<and>
   splitLines (u16 ''a'' @ [chLF, chNbsp, chLF, chNbsp, chLF] @ u16 ''# '') =
     [u16 ''a'', [chNbsp], [chNbsp], u16 ''# ''] \<and>
   blankLine [chNbsp] \<and> \<not> blankLine (u16 ''a'') \<and> \<not> blankLine (u16 ''# '') \<and>
   proseLine (u16 ''a'') \<and> proseLine (u16 ''# '')"
  by code_simp

text \<open>
  C6, amended. Take any text and its lines, and let \<open>before\<close> be what the formatter has
  written when it reaches the line \<open>a\<close> (nothing, when \<open>a\<close> is the first line). When
  \<open>a\<close> is a prose line after escaping and the two lines after it are blank and hold no
  U+00A0, the output goes on with the text of \<open>a\<close>, one \<open><br>\<close>, the first blank
  line, one \<open><br>\<close>, the second blank line, one \<open><br>\<close>, and then the formatting of
  the remaining lines: exactly one \<open><br>\<close> at each of the three transitions. When \<open>a\<close>
  is a prose line after escaping and neither \<open>a\<close> nor the next line \<open>b\<close> is blank, the
  text of \<open>a\<close> is followed by one \<open><br>\<close> exactly when the escaped \<open>b\<close> starts
  neither a heading nor a bullet. The text \<open>a\<close>, two empty lines, \<open>b\<close> gives
  \<open>a<br><br><br>b\<close>.
\<close>

theorem C6_line_breaks:
  "(splitLines text = pre @ a # e1 # e2 # b # post \<and> proseLine (escapeHtml a) \<and>
    blankLine e1 \<and> chNbsp \<notin> set e1 \<and> blankLine e2 \<and> chNbsp \<notin> set e2 \<longrightarrow>
      (\<exists>before. (pre = [] \<longrightarrow> before = []) \<and> formatMessage text =
         before @ applyInlineFormatting (escapeHtml a) @ u16 ''<br>'' @ e1 @ u16 ''<br>'' @
         e2 @ u16 ''<br>'' @ formatLoop False (map escapeHtml (b # post)))) \<and>
   (splitLines text = pre @ a # b # post \<and> proseLine (escapeHtml a) \<and>
    \<not> blankLine a \<and> \<not> blankLine b \<longrightarrow>
      (\<exists>before. (pre = [] \<longrightarrow> before = []) \<and> formatMessage text =
         before @ applyInlineFormatting (escapeHtml a) @
         (if headingStart (escapeHtml b) \<or> bulletStart (escapeHtml b) then [] else u16 ''<br>'') @
         formatLoop False (map escapeHtml (b # post)))) \<and>
   formatMessage (u16 ''a'' @ [chLF, chLF, chLF] @ u16 ''b'') = u16 ''a<br><br><br>b''"
  using message_blank_run [of "text" pre a e1 e2 b post] message_prose_pair [of "text" pre a b post]
    blank_run_example
  by blast

theorem C6_line_breaks_witness:
  "(\<exists>before. formatMessage
       (u16 ''x'' @ [chLF] @ u16 ''a'' @ [chLF] @ u16 '' '' @ [chLF, 0x09, chLF] @ u16 ''- y'') =
     before @ u16 ''a'' @ u16 ''<br>'' @ u16 '' '' @ u16 ''<br>'' @ [0x09] @ u16 ''<br>'' @
     u16 ''<ul><li>y</li></ul>'') \<and>
   formatMessage (u16 ''a'' @ [chLF] @ u16 ''- y'') = u16 ''a'' @ u16 ''<ul><li>y</li></ul>'' \<and>
   formatMessage (u16 ''a'' @ [chLF] @ u16 ''# T'') = u16 ''a'' @ u16 ''<h1>T</h1>'' \<and>
   formatMessage (u16 ''a'' @ [chLF] @ u16 ''b'') = u16 ''a'' @ u16 ''<br>'' @ u16 ''b''"
proof -
  note f = witness_lines
  have 1: "\<exists>before. formatMessage
       (u16 ''x'' @ [chLF] @ u16 ''a'' @ [chLF] @ u16 '' '' @ [chLF, 0x09, chLF] @ u16 ''- y'') =
     before @ u16 ''a'' @ u16 ''<br>'' @ u16 '' '' @ u16 ''<br>'' @ [0x09] @ u16 ''<br>'' @
     u16 ''<ul><li>y</li></ul>''"
    using f C6_line_breaks [of
        "u16 ''x'' @ [chLF] @ u16 ''a'' @ [chLF] @ u16 '' '' @ [chLF, 0x09, chLF] @ u16 ''- y''"
        "[u16 ''x'']" "u16 ''a''" "u16 '' ''" "[0x09]" "u16 ''- y''" "[]"]
    by simp
  have 2: "formatMessage (u16 ''a'' @ [chLF] @ u16 ''- y'') = u16 ''a'' @ u16 ''<ul><li>y</li></ul>''"
    using f C6_line_breaks [of "u16 ''a'' @ [chLF] @ u16 ''- y''" "[]" "u16 ''a''" "[]" "[]"
        "u16 ''- y''" "[]"]
    by simp
  have 3: "formatMessage (u16 ''a'' @ [chLF] @ u16 ''# T'') = u16 ''a'' @ u16 ''<h1>T</h1>''"
    using f C6_line_breaks [of "u16 ''a'' @ [chLF] @ u16 ''# T''" "[]" "u16 ''a''" "[]" "[]"
        "u16 ''# T''" "[]"]
    by simp
  have 4: "formatMessage (u16 ''a'' @ [chLF] @ u16 ''b'') = u16 ''a'' @ u16 ''<br>'' @ u16 ''b''"
    using f C6_line_breaks [of "u16 ''a'' @ [chLF] @ u16 ''b''" "[]" "u16 ''a''" "[]" "[]"
        "u16 ''b''" "[]"]
    by simp
  from 1 2 3 4 show ?thesis by blast
qed

text \<open>
  C2. For the four lines \<open># Title\<close>, \<open>- one\<close>, \<open>- two\<close>, \<open>plain\<close> the Block Formatter
  returns a level-1 heading with \<open>Title\<close>, then one bullet list with the items \<open>one\<close>
  and \<open>two\<close> in this order, closed before the text \<open>plain\<close>; no list tag stays open.
\<close>

theorem C2_block_example:
  "formatMessage
     (u16 ''# Title'' @ [chLF] @ u16 ''- one'' @ [chLF] @ u16 ''- two'' @ [chLF] @ u16 ''plain'')
   = u16 ''<h1>Title</h1><ul><li>one</li><li>two</li></ul>plain''"
  by code_simp

section \<open>Properties of the Transcript\<close>

lemma callOpenAI_result:
  "callOpenAI res st =
     Inr (st\<lparr>chatHistory := chatHistory st @
            [\<lparr>role = Assistant,
              content =
                (case res of
                   Thrown message \<Rightarrow> u16 ''Error: '' @ message
                 | NotOk status text \<Rightarrow>
                     u16 ''Error: Worker proxy error: '' @ decimal status @ u16 '' '' @ text
                 | Payload None \<Rightarrow> u16 ''Sorry, I did not receive a reply.''
                 | Payload (Some reply) \<Rightarrow> reply),
              initial = False\<rparr>]\<rparr>)"
  by (cases res)
     (simp_all add: callOpenAI_def tryBody_def push_def assistantEntry_def u16_def
        split: option.splits)

lemma callOpenAI_push: "\<exists>c. callOpenAI res st = Inr (push (assistantEntry c) st)"
  unfolding callOpenAI_result push_def assistantEntry_def by blast

lemma fallback_text: "u16 ''Sorry, I did not receive a reply.'' \<noteq> u16 ''no reply received''"
  by (simp add: u16_def)



lemma askName_history:
  "chatHistory (askName p st) = chatHistory st \<or>
   (\<exists>name. chatHistory (askName p st) = chatHistory st @ [ack name])"
  by (cases p) (auto simp: askName_def push_def split: option.splits)

lemma isSeed_simps [simp]:
  "\<not> isSeed (userEntry c)" "\<not> isSeed (assistantEntry c)" "\<not> isSeed (ack n)" "isSeed seedEntry"
  by (simp_all add: isSeed_def userEntry_def assistantEntry_def ack_def seedEntry_def)

lemma isThinking_simps [simp]:
  "\<not> isThinking (userEntry c)" "isThinking (assistantEntry c) = (c = thinking)"
  by (simp_all add: isThinking_def userEntry_def assistantEntry_def)

lemma role_simps [simp]:
  "role (userEntry c) = User" "role (assistantEntry c) = Assistant" "role (ack n) = Assistant"
  by (simp_all add: userEntry_def assistantEntry_def ack_def)

lemma history_simps [simp]:
  "chatHistory (push m st) = chatHistory st @ [m]"
  "chatHistory (removeSeed st) = filter (\<lambda>m. \<not> isSeed m) (chatHistory st)"
  "chatHistory (removeThinking st) = filter (\<lambda>m. \<not> isThinking m) (chatHistory st)"
  by (simp_all add: push_def removeSeed_def removeThinking_def)

lemma submit_regular:
  assumes "trim v \<noteq> []" and "\<not> isNameCommand (trim v)"
  shows "\<exists>st' reply. submitHandler v p res st = Inr st' \<and>
           chatHistory st' =
             filter (\<lambda>m. \<not> isSeed m \<and> \<not> isThinking m) (chatHistory (askName p st)) @
             [userEntry (trim v), assistantEntry reply]"
proof -
  let ?st5 = "removeThinking (push (assistantEntry thinking) (push (userEntry (trim v))
                (removeSeed (askName p st))))"
  from callOpenAI_push [of res ?st5] obtain reply
    where r: "callOpenAI res ?st5 = Inr (push (assistantEntry reply) ?st5)" ..
  have "submitHandler v p res st = callOpenAI res ?st5"
    using assms by (simp add: submitHandler_def Let_def)
  with r have "submitHandler v p res st = Inr (push (assistantEntry reply) ?st5)" by simp
  moreover have "chatHistory (push (assistantEntry reply) ?st5) =
      filter (\<lambda>m. \<not> isSeed m \<and> \<not> isThinking m) (chatHistory (askName p st)) @
      [userEntry (trim v), assistantEntry reply]"
    by (simp add: conj_commute)
  ultimately show ?thesis by blast
qed

lemma submit_empty: "trim v = [] \<Longrightarrow> submitHandler v p res st = Inr st"
  by (simp add: submitHandler_def)

lemma filter_role_ack:
  "filter (\<lambda>m. role m = User) (filter (\<lambda>m. \<not> isSeed m \<and> \<not> isThinking m) (chatHistory (askName p st)))
   = filter (\<lambda>m. role m = User) (chatHistory st)"
proof -
  have u: "\<And>h. filter (\<lambda>m. role m = User) (filter (\<lambda>m. \<not> isSeed m \<and> \<not> isThinking m) h)
             = filter (\<lambda>m. role m = User) h"
  proof -
    fix h :: "entry list"
    show "filter (\<lambda>m. role m = User) (filter (\<lambda>m. \<not> isSeed m \<and> \<not> isThinking m) h)
          = filter (\<lambda>m. role m = User) h"
      by (induction h) (auto simp: isSeed_def isThinking_def)
  qed
  have "filter (\<lambda>m. role m = User) (chatHistory (askName p st)) =
        filter (\<lambda>m. role m = User) (chatHistory st)"
    using askName_history [of p st] by auto
  then show ?thesis by (simp only: u)
qed

lemma hello_facts:
  "trim (u16 ''hello'') = u16 ''hello'' \<and> u16 ''hello'' \<noteq> [] \<and> \<not> isNameCommand (u16 ''hello'')"
  by code_simp

lemma initial_history: "chatHistory initialState = [seedEntry]"
  by (simp add: initialState_def seed_def push_def)

lemma name_command_facts:
  "trim (u16 ''/name Bob'') = u16 ''/name Bob'' \<and> isNameCommand (u16 ''/name Bob'') \<and>
   trim (drop 6 (u16 ''/name Bob'')) = u16 ''Bob''"
  by code_simp

lemma name_command_run:
  "submitHandler (u16 ''/name Bob'') p res initialState =
     Inr (push (ack (u16 ''Bob'')) (initialState\<lparr>userName := Some (u16 ''Bob'')\<rparr>))"
proof -
  have "u16 ''/name Bob'' \<noteq> []" "u16 ''Bob'' \<noteq> []" by (simp_all add: u16_def)
  then show ?thesis
    by (simp add: submitHandler_def Let_def name_command_facts)
qed

lemma hi_facts:
  "trim (u16 ''hi'') = u16 ''hi'' \<and> u16 ''hi'' \<noteq> [] \<and> \<not> isNameCommand (u16 ''hi'')"
  by code_simp

lemma remove_placeholder_history:
  "chatHistory (removeThinking (push (assistantEntry thinking) st)) =
   filter (\<lambda>m. \<not> isThinking m) (chatHistory st)"
  by simp

lemma remove_placeholder_id_iff:
  "(removeThinking (push (assistantEntry thinking) st) = st) =
   (\<forall>m \<in> set (chatHistory st). \<not> isThinking m)"
proof -
  have "(removeThinking (push (assistantEntry thinking) st) = st) =
        (filter (\<lambda>m. \<not> isThinking m) (chatHistory st) = chatHistory st)"
    by (cases st) (simp add: removeThinking_def push_def)
  then show ?thesis by (simp add: filter_id_conv)
qed

lemma greeting_not_thinking: "greeting \<noteq> thinking"
  by (simp add: greeting_def thinking_def u16_def)

lemma callOpenAI_no_seed:
  assumes "\<forall>m \<in> set (chatHistory st). \<not> isSeed m"
  shows "\<exists>st'. callOpenAI res st = Inr st' \<and> (\<forall>m \<in> set (chatHistory st'). \<not> isSeed m)"
proof -
  from callOpenAI_push [of res st] obtain c
    where "callOpenAI res st = Inr (push (assistantEntry c) st)" ..
  with assms show ?thesis by auto
qed

lemma askName_no_seed:
  assumes "\<forall>m \<in> set (chatHistory st). \<not> isSeed m"
  shows "\<forall>m \<in> set (chatHistory (askName p st)). \<not> isSeed m"
  using askName_history [of p st] assms by auto

lemma submit_no_seed:
  assumes "\<forall>m \<in> set (chatHistory st). \<not> isSeed m"
  shows "\<exists>st'. submitHandler v p res st = Inr st' \<and> (\<forall>m \<in> set (chatHistory st'). \<not> isSeed m)"
proof (cases "trim v \<noteq> [] \<and> \<not> isNameCommand (trim v)")
  case True
  then obtain st' reply where "submitHandler v p res st = Inr st'"
    and "chatHistory st' =
           filter (\<lambda>m. \<not> isSeed m \<and> \<not> isThinking m) (chatHistory (askName p st)) @
           [userEntry (trim v), assistantEntry reply]"
    using submit_regular [of v p res st] by blast
  then show ?thesis by auto
next
  case False
  with assms show ?thesis
    by (auto simp: submitHandler_def Let_def)
qed

lemma submit_evicts_seed:
  assumes "trim v \<noteq> []" and "\<not> isNameCommand (trim v)"
  shows "\<exists>st'. submitHandler v p res st = Inr st' \<and> (\<forall>m \<in> set (chatHistory st'). \<not> isSeed m)"
proof -
  from submit_regular [OF assms, of p res st] obtain st' reply
    where "submitHandler v p res st = Inr st'"
      and "chatHistory st' =
           filter (\<lambda>m. \<not> isSeed m \<and> \<not> isThinking m) (chatHistory (askName p st)) @
           [userEntry (trim v), assistantEntry reply]"
    by blast
  then show ?thesis by auto
qed

text \<open>
  C3, as the code has it. A text that starts with \<open>/name \<close> is not empty after
  trimming, and the handler takes it as a command: from the seeded transcript,
  \<open>/name Bob\<close> appends the acknowledgement only; the seed greeting stays and no user
  entry is created.
\<close>

theorem C3_name_command:
  "trim (u16 ''/name Bob'') \<noteq> [] \<and>
   submitHandler (u16 ''/name Bob'') PromptThrows (Payload None) initialState =
     Inr (push (ack (u16 ''Bob'')) (initialState\<lparr>userName := Some (u16 ''Bob'')\<rparr>)) \<and>
   chatHistory (push (ack (u16 ''Bob'')) (initialState\<lparr>userName := Some (u16 ''Bob'')\<rparr>)) =
     [seedEntry, ack (u16 ''Bob'')] \<and>
   filter (\<lambda>m. role m = User) [seedEntry, ack (u16 ''Bob'')] = [] \<and>
   filter isSeed [seedEntry, ack (u16 ''Bob'')] = [seedEntry]"
proof -
  have "trim (u16 ''/name Bob'') \<noteq> []"
    by (simp add: name_command_facts) (simp add: u16_def)
  moreover have "role seedEntry = Assistant" by (simp add: seedEntry_def)
  ultimately show ?thesis
    by (simp add: name_command_run initial_history)
qed

text \<open>
  C3, amended. Submitting a text that is empty after trimming leaves the state
  unchanged. Submitting a text that is not empty after trimming and is not a \<open>/name\<close>
  command ends with a transcript that is the earlier one (with the acknowledgement of the
  name prompt appended, when the prompt gave a name) without its seed greeting and without
  assistant entries equal to the placeholder, then one user entry with the trimmed text,
  then one assistant entry from the network call: no seed-greeting entry is left and the
  user entries are the earlier ones followed by the new one. After one submission of
  \<open>hello\<close> to the seeded transcript there is exactly one user entry, with content
  \<open>hello\<close>, and no seed-greeting entry.
\<close>

theorem C3_submit:
  "(trim v = [] \<longrightarrow> submitHandler v p res st = Inr st) \<and>
   (trim v \<noteq> [] \<and> \<not> isNameCommand (trim v) \<longrightarrow>
      (\<exists>st' reply. submitHandler v p res st = Inr st' \<and>
         chatHistory st' =
           filter (\<lambda>m. \<not> isSeed m \<and> \<not> isThinking m) (chatHistory (askName p st)) @
           [userEntry (trim v), assistantEntry reply] \<and>
         filter isSeed (chatHistory st') = [] \<and>
         filter (\<lambda>m. role m = User) (chatHistory st') =
           filter (\<lambda>m. role m = User) (chatHistory st) @ [userEntry (trim v)])) \<and>
   (chatHistory (askName p st) = chatHistory st \<or>
    (\<exists>name. chatHistory (askName p st) = chatHistory st @ [ack name])) \<and>
   (\<exists>st'. submitHandler (u16 ''hello'') p res initialState = Inr st' \<and>
      filter (\<lambda>m. role m = User) (chatHistory st') = [userEntry (u16 ''hello'')] \<and>
      filter isSeed (chatHistory st') = [])"
proof -
  have regular: "\<exists>st' reply. submitHandler v p res st = Inr st' \<and>
         chatHistory st' =
           filter (\<lambda>m. \<not> isSeed m \<and> \<not> isThinking m) (chatHistory (askName p st)) @
           [userEntry (trim v), assistantEntry reply] \<and>
         filter isSeed (chatHistory st') = [] \<and>
         filter (\<lambda>m. role m = User) (chatHistory st') =
           filter (\<lambda>m. role m = User) (chatHistory st) @ [userEntry (trim v)]"
    if "trim v \<noteq> []" "\<not> isNameCommand (trim v)" for v p res st
  proof -
    from submit_regular [OF that, of p res st] obtain st' reply
      where run: "submitHandler v p res st = Inr st'"
        and h: "chatHistory st' =
           filter (\<lambda>m. \<not> isSeed m \<and> \<not> isThinking m) (chatHistory (askName p st)) @
           [userEntry (trim v), assistantEntry reply]"
      by blast
    have "filter isSeed (chatHistory st') = []"
      unfolding h by (auto simp: filter_empty_conv)
    moreover have "filter (\<lambda>m. role m = User) (chatHistory st') =
           filter (\<lambda>m. role m = User) (chatHistory st) @ [userEntry (trim v)]"
      unfolding h by (simp add: filter_role_ack del: filter_filter)
    ultimately show ?thesis using run h by blast
  qed
  have "\<exists>st'. submitHandler (u16 ''hello'') p res initialState = Inr st' \<and>
      filter (\<lambda>m. role m = User) (chatHistory st') = [userEntry (u16 ''hello'')] \<and>
      filter isSeed (chatHistory st') = []"
  proof -
    have "role seedEntry = Assistant" by (simp add: seedEntry_def)
    then have "filter (\<lambda>m. role m = User) (chatHistory initialState) = []"
      by (simp add: initial_history)
    with regular [of "u16 ''hello''" p res initialState] hello_facts show ?thesis
      by auto
  qed
  with regular [of v p res st] submit_empty [of v p res st] askName_history [of p st]
  show ?thesis by blast
qed

theorem C3_submit_witness:
  "trim (u16 ''  '') = [] \<and>
   submitHandler (u16 ''  '') PromptThrows (Payload None) initialState = Inr initialState \<and>
   trim (u16 '' hello '') \<noteq> [] \<and> \<not> isNameCommand (trim (u16 '' hello '')) \<and>
   (\<exists>st'. submitHandler (u16 '' hello '') PromptThrows (Payload (Some (u16 ''Hi!''))) initialState
            = Inr st' \<and>
      filter isSeed (chatHistory st') = [] \<and>
      filter (\<lambda>m. role m = User) (chatHistory st') = [userEntry (u16 ''hello'')])"
proof -
  have t: "trim (u16 ''  '') = []" "trim (u16 '' hello '') = u16 ''hello''"
    by code_simp+
  have n: "trim (u16 '' hello '') \<noteq> [] \<and> \<not> isNameCommand (trim (u16 '' hello ''))"
    using hello_facts by (simp add: t)
  have "role seedEntry = Assistant" by (simp add: seedEntry_def)
  then have u: "filter (\<lambda>m. role m = User) (chatHistory initialState) = []"
    by (simp add: initial_history)
  from C3_submit [of "u16 ''  ''" PromptThrows "Payload None" initialState] t(1)
  have 1: "submitHandler (u16 ''  '') PromptThrows (Payload None) initialState = Inr initialState"
    by blast
  from C3_submit [of "u16 '' hello ''" PromptThrows "Payload (Some (u16 ''Hi!''))" initialState] n
  have "\<exists>st'. submitHandler (u16 '' hello '') PromptThrows (Payload (Some (u16 ''Hi!''))) initialState
            = Inr st' \<and>
      filter isSeed (chatHistory st') = [] \<and>
      filter (\<lambda>m. role m = User) (chatHistory st') =
        filter (\<lambda>m. role m = User) (chatHistory initialState) @ [userEntry (trim (u16 '' hello ''))]"
    by blast
  then have 2: "\<exists>st'. submitHandler (u16 '' hello '') PromptThrows (Payload (Some (u16 ''Hi!''))) initialState
            = Inr st' \<and>
      filter isSeed (chatHistory st') = [] \<and>
      filter (\<lambda>m. role m = User) (chatHistory st') = [userEntry (u16 ''hello'')]"
    by (simp add: u t)
  from t(1) 1 n 2 show ?thesis by blast
qed

text \<open>
  C4, as the code has it. The placeholder is recognised by its role and content alone.
  When the assistant's reply to \<open>hi\<close> is the text \<open>Thinking...\<close>, the transcript holds
  that reply, and appending the placeholder and removing it removes the reply as well.
\<close>

theorem C4_reply_removed:
  "submitHandler (u16 ''hi'') PromptThrows (Payload (Some thinking)) initialState =
     Inr \<lparr>chatHistory = [userEntry (u16 ''hi''), assistantEntry thinking],
          userName = None, hasAskedName = True\<rparr> \<and>
   chatHistory (removeThinking (push (assistantEntry thinking)
     \<lparr>chatHistory = [userEntry (u16 ''hi''), assistantEntry thinking],
      userName = None, hasAskedName = True\<rparr>)) = [userEntry (u16 ''hi'')] \<and>
   [userEntry (u16 ''hi'')] \<noteq> [userEntry (u16 ''hi''), assistantEntry thinking]"
proof -
  have "submitHandler (u16 ''hi'') PromptThrows (Payload (Some thinking)) initialState =
     Inr \<lparr>chatHistory = [userEntry (u16 ''hi''), assistantEntry thinking],
          userName = None, hasAskedName = True\<rparr>"
    using hi_facts
    by (simp add: submitHandler_def Let_def askName_def initialState_def seed_def push_def
        removeSeed_def removeThinking_def callOpenAI_def tryBody_def)
  then show ?thesis by simp
qed

text \<open>
  C4, amended. Appending the placeholder and then removing it leaves of the earlier
  transcript exactly the entries that are not an assistant entry with the placeholder's
  content, in their order, and changes nothing else of the state; the state is the same
  as before exactly when the earlier transcript holds no assistant entry with the
  placeholder's content.
\<close>

theorem C4_placeholder_removal:
  "chatHistory (removeThinking (push (assistantEntry thinking) st)) =
     filter (\<lambda>m. \<not> isThinking m) (chatHistory st) \<and>
   userName (removeThinking (push (assistantEntry thinking) st)) = userName st \<and>
   hasAskedName (removeThinking (push (assistantEntry thinking) st)) = hasAskedName st \<and>
   (removeThinking (push (assistantEntry thinking) st) = st) =
     (\<forall>m \<in> set (chatHistory st). \<not> isThinking m)"
  using remove_placeholder_history [of st] remove_placeholder_id_iff [of st]
  by (simp add: removeThinking_def push_def)

theorem C4_placeholder_removal_witness:
  "chatHistory initialState = [seedEntry] \<and> \<not> isThinking seedEntry \<and>
   removeThinking (push (assistantEntry thinking) initialState) = initialState"
proof -
  have s: "\<not> isThinking seedEntry"
    using greeting_not_thinking by (simp add: isThinking_def seedEntry_def)
  then have "\<forall>m \<in> set (chatHistory initialState). \<not> isThinking m"
    by (simp add: initial_history)
  with C4_placeholder_removal [of initialState]
  have "removeThinking (push (assistantEntry thinking) initialState) = initialState"
    by blast
  with s initial_history show ?thesis by blast
qed

text \<open>
  C7, as the code has it. When the payload lacks the reply field, the appended entry has
  the content \<open>Sorry, I did not receive a reply.\<close>, not \<open>no reply received\<close>.
\<close>

theorem C7_fallback_text:
  "callOpenAI (Payload None) initialState =
     Inr (push (assistantEntry (u16 ''Sorry, I did not receive a reply.'')) initialState) \<and>
   assistantEntry (u16 ''Sorry, I did not receive a reply.'') \<noteq>
     assistantEntry (u16 ''no reply received'')"
  by (simp add: callOpenAI_def tryBody_def assistantEntry_def fallback_text)

text \<open>
  C7, amended. For every outcome of the network call, \<open>callOpenAI\<close> returns normally
  (no error reaches the caller) and the state differs from the one before by exactly one
  appended assistant entry: its content is the reply text, or \<open>Error: \<close> followed by
  the message of the thrown error, or \<open>Error: Worker proxy error: \<close> followed by the
  status and the body text for a non-success status, or the fixed text
  \<open>Sorry, I did not receive a reply.\<close> when the payload lacks the reply field.
\<close>

theorem C7_callOpenAI:
  "callOpenAI res st =
     Inr (st\<lparr>chatHistory := chatHistory st @
            [\<lparr>role = Assistant,
              content =
                (case res of
                   Thrown message \<Rightarrow> u16 ''Error: '' @ message
                 | NotOk status text \<Rightarrow>
                     u16 ''Error: Worker proxy error: '' @ decimal status @ u16 '' '' @ text
                 | Payload None \<Rightarrow> u16 ''Sorry, I did not receive a reply.''
                 | Payload (Some reply) \<Rightarrow> reply),
              initial = False\<rparr>]\<rparr>)"
  by (rule callOpenAI_result)

text \<open>
  C9, as the code has it. The \<open>/name\<close> command is a non-empty submission on which the
  eviction filter does not run: after \<open>/name Bob\<close> the seeded transcript still holds
  the seed greeting.
\<close>

theorem C9_name_command_keeps_seed:
  "trim (u16 ''/name Bob'') \<noteq> [] \<and>
   submitHandler (u16 ''/name Bob'') (PromptReturns None) (Thrown []) initialState =
     Inr (push (ack (u16 ''Bob'')) (initialState\<lparr>userName := Some (u16 ''Bob'')\<rparr>)) \<and>
   seedEntry \<in> set (chatHistory
     (push (ack (u16 ''Bob'')) (initialState\<lparr>userName := Some (u16 ''Bob'')\<rparr>))) \<and>
   isSeed seedEntry"
proof -
  have "trim (u16 ''/name Bob'') \<noteq> []"
    by (simp add: name_command_facts) (simp add: u16_def)
  then show ?thesis
    by (simp add: name_command_run initial_history)
qed

text \<open>
  C9, amended. The eviction filter leaves no seed-flagged entry, however many there were.
  It runs on every submission that is not empty after trimming and is not a \<open>/name\<close>
  command (not only on the first), so after such a submission the transcript holds no
  seed-flagged entry. Once the transcript holds none, it holds none after any further run
  of the submit handler (a submission, a \<open>/name\<close> command or an empty input) and after
  any assistant entry appended by the network call.
\<close>

theorem C9_seed_eviction:
  "(\<forall>m \<in> set (chatHistory (removeSeed st)). \<not> isSeed m) \<and>
   (trim v \<noteq> [] \<and> \<not> isNameCommand (trim v) \<longrightarrow>
      (\<exists>st'. submitHandler v p res st = Inr st' \<and>
             (\<forall>m \<in> set (chatHistory st'). \<not> isSeed m))) \<and>
   ((\<forall>m \<in> set (chatHistory st). \<not> isSeed m) \<longrightarrow>
      (\<exists>st'. submitHandler v p res st = Inr st' \<and>
             (\<forall>m \<in> set (chatHistory st'). \<not> isSeed m)) \<and>
      (\<exists>st'. callOpenAI res st = Inr st' \<and>
             (\<forall>m \<in> set (chatHistory st'). \<not> isSeed m)))"
proof -
  have "\<forall>m \<in> set (chatHistory (removeSeed st)). \<not> isSeed m" by simp
  then show ?thesis
    using submit_evicts_seed [of v p res st] submit_no_seed [of st v p res]
      callOpenAI_no_seed [of st res]
    by blast
qed

theorem C9_seed_eviction_witness:
  "trim (u16 ''hello'') \<noteq> [] \<and> \<not> isNameCommand (trim (u16 ''hello'')) \<and>
   isSeed seedEntry \<and> seedEntry \<in> set (chatHistory initialState) \<and>
   (\<exists>st'. submitHandler (u16 ''hello'') PromptThrows (Payload None) initialState = Inr st' \<and>
          (\<forall>m \<in> set (chatHistory st'). \<not> isSeed m) \<and>
          (\<exists>st''. submitHandler (u16 ''/name Bob'') PromptThrows (Payload None) st' = Inr st'' \<and>
                  (\<forall>m \<in> set (chatHistory st''). \<not> isSeed m)) \<and>
          (\<exists>st''. callOpenAI (Thrown (u16 ''Failed to fetch'')) st' = Inr st'' \<and>
                  (\<forall>m \<in> set (chatHistory st''). \<not> isSeed m)))"
proof -
  have n: "trim (u16 ''hello'') \<noteq> [] \<and> \<not> isNameCommand (trim (u16 ''hello''))"
    using hello_facts by simp
  with C9_seed_eviction [of initialState "u16 ''hello''" PromptThrows "Payload None"]
  obtain st' where run: "submitHandler (u16 ''hello'') PromptThrows (Payload None) initialState = Inr st'"
    and inv: "\<forall>m \<in> set (chatHistory st'). \<not> isSeed m"
    by blast
  from inv C9_seed_eviction [of st' "u16 ''/name Bob''" PromptThrows "Payload None"]
  have a: "\<exists>st''. submitHandler (u16 ''/name Bob'') PromptThrows (Payload None) st' = Inr st'' \<and>
                  (\<forall>m \<in> set (chatHistory st''). \<not> isSeed m)"
    by blast
  from inv C9_seed_eviction [of st' "[]" PromptThrows "Thrown (u16 ''Failed to fetch'')"]
  have b: "\<exists>st''. callOpenAI (Thrown (u16 ''Failed to fetch'')) st' = Inr st'' \<and>
                  (\<forall>m \<in> set (chatHistory st''). \<not> isSeed m)"
    by blast
  have "isSeed seedEntry \<and> seedEntry \<in> set (chatHistory initialState)"
    by (simp add: initial_history)
  with n run inv a b show ?thesis by blast
qed

end
